theory Spec2Isabelle
  imports Main "HOL-Library.Monad_Syntax" "HOL-Library.Multiset"
begin

section \<open>The buddy allocator of kernel/buddy\_alloc.c\<close>

subsection \<open>Constants\<close>

text \<open>
  The three macros of the source. \<open>PAGES\<close> is written \<open>512 * 32\<close> without parentheses;
  every use (\<open>2 * PAGES - 1\<close>, \<open>size = PAGES\<close>) reads the same with or without them.
\<close>

definition PAGES :: nat where
  "PAGES = 512 * 32"

definition NODES :: nat where
  "NODES = 2 * PAGES - 1"

definition DEPTH :: nat where
  "DEPTH = 15"

text \<open>
  Modelled from the spec: the page size \<open>PGSIZE\<close> of riscv.h, which is not part of the
  sources at hand. The spec's scenarios and the header comment of the file fix it to 4096 bytes.
\<close>

definition PGSIZE :: nat where
  "PGSIZE = 4096"

text \<open>
  Modelled from the spec: \<open>PGROUNDUP\<close> of riscv.h (the spec's \<open>page_align_up\<close>), the
  least multiple of the page size that is not below its argument.
\<close>

definition PGROUNDUP :: "nat \<Rightarrow> nat" where
  "PGROUNDUP sz = ((sz + PGSIZE - 1) div PGSIZE) * PGSIZE"

subsection \<open>Data\<close>

text \<open>
  The field \<open>state\<close> is an \<open>int\<close> in the source that only ever holds the four documented
  values: 0 (does not exist), 1 (used), 2 (inner), 3 (free).
\<close>

datatype node_state = NONEXISTENT | USED | INNER | FREE

text \<open>
  Every \<open>struct node *\<close> of the source is null or the address of an element of the array
  \<open>buddy_metadata.nodes\<close>; it is modelled by the index of that element, \<open>None\<close> being null.
  Addresses of memory (\<open>char *\<close>, \<open>void *\<close>) are natural numbers, 0 being null: the arena lies
  below \<open>PHYSTOP\<close>, far from the end of the 64-bit address space, so that pointer arithmetic
  never wraps. The fields \<open>id\<close>, \<open>size\<close> and \<open>next\<close> carry a suffix, their names being taken
  in Isabelle.
\<close>

type_synonym ptr = "nat option"

record node =
  state :: node_state
  id_node :: nat
  size_node :: nat
  lvl :: nat
  left_child :: ptr
  right_child :: ptr
  prev :: ptr
  next_node :: ptr
  parent :: ptr
  neighbour :: ptr
  memory :: nat

text \<open>
  Modelled from the spec: the lock of spinlock.h is outside the sources at hand; it is kept
  as the trace of the calls made on it.
\<close>

datatype lock_event = Acquire | Release

record buddy_metadata =
  lock :: "lock_event list"
  nodes :: "nat \<Rightarrow> node"
  lists :: "nat \<Rightarrow> ptr"
  sizes :: "nat \<Rightarrow> int"

definition acquire :: "buddy_metadata \<Rightarrow> buddy_metadata" where
  "acquire s = s\<lparr>lock := lock s @ [Acquire]\<rparr>"

definition release :: "buddy_metadata \<Rightarrow> buddy_metadata" where
  "release s = s\<lparr>lock := lock s @ [Release]\<rparr>"

definition upd_node :: "nat \<Rightarrow> (node \<Rightarrow> node) \<Rightarrow> buddy_metadata \<Rightarrow> buddy_metadata" where
  "upd_node i f s = s\<lparr>nodes := (nodes s)(i := f (nodes s i))\<rparr>"

text \<open>
  Following a pointer: a null pointer, or one outside the array, has no defined target. A call
  that would follow one has the value \<open>None\<close>, as has a call whose loop does not end.
\<close>

definition deref :: "ptr \<Rightarrow> nat option" where
  "deref p = (case p of None \<Rightarrow> None | Some i \<Rightarrow> if i < NODES then Some i else None)"

subsection \<open>add\_free\_node\<close>

definition add_free_node :: "ptr \<Rightarrow> buddy_metadata \<Rightarrow> buddy_metadata option" where
  "add_free_node p s = do {
     n \<leftarrow> deref p;
     let l = lvl (nodes s n);
     if l < DEPTH then do {
       let s1 = s\<lparr>sizes := (sizes s)(l := sizes s l + 1)\<rparr>;
       let s2 = upd_node n (\<lambda>x. x\<lparr>next_node := lists s1 l\<rparr>) s1;
       let s3 = s2\<lparr>lists := (lists s2)(l := Some n)\<rparr>;
       let s4 = upd_node n (\<lambda>x. x\<lparr>prev := None\<rparr>) s3;
       case next_node (nodes s4 n) of
         None \<Rightarrow> Some s4
       | Some m \<Rightarrow> do {
           m' \<leftarrow> deref (Some m);
           Some (upd_node m' (\<lambda>x. x\<lparr>prev := Some n\<rparr>) s4)
         }
     } else None
   }"

subsection \<open>buddy\_init\<close>

text \<open>
  The allocator is a global of static storage, all zero when the kernel starts:
  \<open>zero_metadata\<close>. \<open>buddy_init\<close> is a function of the state it finds, whatever that holds.
\<close>

definition zero_node :: node where
  "zero_node = \<lparr>state = NONEXISTENT, id_node = 0, size_node = 0, lvl = 0,
     left_child = None, right_child = None, prev = None, next_node = None,
     parent = None, neighbour = None, memory = 0\<rparr>"

definition zero_metadata :: buddy_metadata where
  "zero_metadata = \<lparr>lock = [], nodes = (\<lambda>_. zero_node), lists = (\<lambda>_. None), sizes = (\<lambda>_. 0)\<rparr>"

definition clear_level :: "nat \<Rightarrow> buddy_metadata \<Rightarrow> buddy_metadata" where
  "clear_level idx s = s\<lparr>lists := (lists s)(idx := None), sizes := (sizes s)(idx := 0)\<rparr>"

definition init_root :: "nat \<Rightarrow> buddy_metadata \<Rightarrow> buddy_metadata" where
  "init_root end_addr s = upd_node 0 (\<lambda>_.
     \<lparr>state = FREE, id_node = 0, size_node = PAGES, lvl = DEPTH - 1,
      left_child = Some 1, right_child = Some 2, prev = None, next_node = None,
      parent = Some 0, neighbour = Some 0, memory = PGROUNDUP end_addr\<rparr>) s"

text \<open>
  One round of the second loop: \<open>child_node\<close> holds the fields assigned, from the
  parent's. The parent \<open>(id - 1) / 2\<close> lies before \<open>id\<close>, so it is read before the node is
  written. \<open>lvl\<close> is a natural number here; the subtraction
  \<open>parent->lvl - 1\<close> is never taken at 0: every node gets the level \<open>lvl_of\<close> of its index,
  and the parent's is one more (lemmas \<open>buddy_init_inv\<close> and \<open>lvl_of_parent\<close> below).
\<close>

definition child_node :: "nat \<Rightarrow> node \<Rightarrow> node" where
  "child_node i par =
     (let sz = size_node par div 2
      in \<lparr>state = NONEXISTENT, id_node = i, size_node = sz, lvl = lvl par - 1,
         left_child = (if i < NODES div 2 then Some (2 * i + 1) else None),
         right_child = (if i < NODES div 2 then Some (2 * i + 2) else None),
         prev = None, next_node = None,
         parent = Some ((i - 1) div 2),
         neighbour = (if i mod 2 = 1 then Some (i + 1) else Some (i - 1)),
         memory = (if i mod 2 = 1 then memory par else memory par + sz * PGSIZE)\<rparr>)"

definition init_node :: "nat \<Rightarrow> buddy_metadata \<Rightarrow> buddy_metadata" where
  "init_node i s = upd_node i (\<lambda>_. child_node i (nodes s ((i - 1) div 2))) s"

text \<open>
  \<open>initlock\<close> leaves the lock with an empty trace; the first loop clears every list head and
  count; then the root is written and put on its list, and the second loop writes the other
  nodes in the order of their indices.
\<close>

definition buddy_init :: "nat \<Rightarrow> buddy_metadata \<Rightarrow> buddy_metadata option" where
  "buddy_init end_addr s = do {
     let s0 = s\<lparr>lock := []\<rparr>;
     let s1 = fold clear_level [0..<DEPTH] s0;
     let s2 = init_root end_addr s1;
     s3 \<leftarrow> add_free_node (Some 0) s2;
     Some (fold init_node [1..<NODES] s3)
   }"

subsection \<open>buddy\_free\<close>

datatype free_result = Freed buddy_metadata | Panic buddy_metadata

text \<open>The descent from the root to the node that starts at \<open>pa\<close>.\<close>

partial_function (option) descend :: "nat \<Rightarrow> nat \<Rightarrow> buddy_metadata \<Rightarrow> nat option" where
  "descend pa c s =
     (if state (nodes s c) = INNER then do {
        r \<leftarrow> deref (right_child (nodes s c));
        if memory (nodes s r) > pa then do {
          l \<leftarrow> deref (left_child (nodes s c));
          descend pa l s
        } else descend pa r s
      } else Some c)"

declare descend.simps [code]

text \<open>
  Taking a node out of the list of its level: the same eight lines stand in \<open>buddy_free\<close>
  (for the neighbour) and in \<open>buddy_alloc\<close> (for the head of the list). Each line reads
  the fields again, as the source does.
\<close>

definition unlink :: "nat \<Rightarrow> buddy_metadata \<Rightarrow> buddy_metadata option" where
  "unlink c s = do {
     s1 \<leftarrow> (case prev (nodes s c) of
             Some p \<Rightarrow> do {
               p' \<leftarrow> deref (Some p);
               Some (upd_node p' (\<lambda>x. x\<lparr>next_node := next_node (nodes s c)\<rparr>) s)
             }
           | None \<Rightarrow>
               if lvl (nodes s c) < DEPTH
               then Some (s\<lparr>lists := (lists s)(lvl (nodes s c) := next_node (nodes s c))\<rparr>)
               else None);
     s2 \<leftarrow> (case next_node (nodes s1 c) of
             Some nx \<Rightarrow> do {
               nx' \<leftarrow> deref (Some nx);
               Some (upd_node nx' (\<lambda>x. x\<lparr>prev := prev (nodes s1 c)\<rparr>) s1)
             }
           | None \<Rightarrow> Some s1);
     if lvl (nodes s2 c) < DEPTH then do {
       let l = lvl (nodes s2 c);
       let s3 = s2\<lparr>sizes := (sizes s2)(l := sizes s2 l - 1)\<rparr>;
       let s4 = upd_node c (\<lambda>x. x\<lparr>prev := None\<rparr>) s3;
       Some (upd_node c (\<lambda>x. x\<lparr>next_node := None\<rparr>) s4)
     } else None
   }"

partial_function (option) coalesce :: "nat \<Rightarrow> buddy_metadata \<Rightarrow> (nat \<times> buddy_metadata) option" where
  "coalesce c s =
     (if id_node (nodes s c) \<noteq> 0 then do {
        nb \<leftarrow> deref (neighbour (nodes s c));
        if state (nodes s nb) = FREE then do {
          let s1 = upd_node c (\<lambda>x. x\<lparr>state := NONEXISTENT\<rparr>) s;
          nb1 \<leftarrow> deref (neighbour (nodes s1 c));
          let s2 = upd_node nb1 (\<lambda>x. x\<lparr>state := NONEXISTENT\<rparr>) s1;
          nb2 \<leftarrow> deref (neighbour (nodes s2 c));
          s3 \<leftarrow> unlink nb2 s2;
          p \<leftarrow> deref (parent (nodes s3 c));
          coalesce p s3
        } else Some (c, s)
      } else Some (c, s))"

declare coalesce.simps [code]

definition buddy_free :: "nat \<Rightarrow> nat \<Rightarrow> nat \<Rightarrow> buddy_metadata \<Rightarrow> free_result option" where
  "buddy_free end_addr PHYSTOP pa s =
     (if pa = 0 \<or> pa mod PGSIZE \<noteq> 0 \<or> pa < end_addr \<or> pa \<ge> PHYSTOP then Some (Panic s)
      else do {
        let s1 = acquire s;
        c \<leftarrow> descend pa 0 s1;
        if state (nodes s1 c) \<noteq> USED \<or> memory (nodes s1 c) \<noteq> pa then Some (Panic s1)
        else if id_node (nodes s1 c) = 0 then do {
          s2 \<leftarrow> add_free_node (Some c) s1;
          Some (Freed (release (upd_node c (\<lambda>x. x\<lparr>state := FREE\<rparr>) s2)))
        } else do {
          (c', s2) \<leftarrow> coalesce c s1;
          s3 \<leftarrow> add_free_node (Some c') s2;
          Some (Freed (release (upd_node c' (\<lambda>x. x\<lparr>state := FREE\<rparr>) s3)))
        }
      })"

subsection \<open>buddy\_alloc\<close>

partial_function (option) log2_loop :: "int \<Rightarrow> int \<Rightarrow> nat \<Rightarrow> (int \<times> nat) option" where
  "log2_loop n pow2 l = (if pow2 < n then log2_loop n (pow2 * 2) (l + 1) else Some (pow2, l))"

declare log2_loop.simps [code]

text \<open>The scan for \<open>split_lvl\<close>; \<open>None\<close> is the source's \<open>-1\<close>.\<close>

function find_split :: "buddy_metadata \<Rightarrow> nat \<Rightarrow> nat option" where
  "find_split s idx =
     (if idx < DEPTH then (if sizes s idx > 0 then Some idx else find_split s (idx + 1))
      else None)"
  by pat_completeness auto
termination
  by (relation "measure (\<lambda>(s, idx). DEPTH - idx)") auto

declare find_split.simps [simp del]

partial_function (option) split_loop ::
    "nat \<Rightarrow> nat \<Rightarrow> buddy_metadata \<Rightarrow> (nat \<times> buddy_metadata) option" where
  "split_loop c l s =
     (if lvl (nodes s c) > l then do {
        let s1 = upd_node c (\<lambda>x. x\<lparr>state := INNER\<rparr>) s;
        s2 \<leftarrow> add_free_node (right_child (nodes s1 c)) s1;
        r \<leftarrow> deref (right_child (nodes s2 c));
        let s3 = upd_node r (\<lambda>x. x\<lparr>state := FREE\<rparr>) s2;
        lc \<leftarrow> deref (left_child (nodes s3 c));
        split_loop lc l s3
      } else Some (c, s))"

declare split_loop.simps [code]

text \<open>The result is the address returned, 0 for null, and the state left behind.\<close>

definition buddy_alloc :: "int \<Rightarrow> buddy_metadata \<Rightarrow> (nat \<times> buddy_metadata) option" where
  "buddy_alloc n s =
     (if n \<le> 0 \<or> n > 512 then Some (0, s)
      else do {
        (pow2, l) \<leftarrow> log2_loop n 1 0;
        if n \<noteq> pow2 then Some (0, s)
        else do {
          let s1 = acquire s;
          case find_split s1 l of
            None \<Rightarrow> Some (0, release s1)
          | Some split_lvl \<Rightarrow> do {
              c \<leftarrow> deref (lists s1 split_lvl);
              s2 \<leftarrow> unlink c s1;
              (c', s3) \<leftarrow> split_loop c l s2;
              let s4 = upd_node c' (\<lambda>x. x\<lparr>state := USED\<rparr>) s3;
              let s5 = release s4;
              Some (memory (nodes s5 c'), s5)
            }
        }
      })"

section \<open>Definitions of the verification\<close>

text \<open>
  What follows is not part of the source: the closed forms of the fields fixed by
  \<open>buddy_init\<close>, the doubly linked lists as lists of node indices, the state invariants, the
  allocator seen as an abstract machine on node states and lists, and the states the allocator
  can reach.
\<close>

text \<open>
  The nodes form a heap-shaped tree: node \<open>i\<close> has the children \<open>2 * i + 1\<close> and \<open>2 * i + 2\<close> and
  the parent \<open>(i - 1) div 2\<close>. \<open>depth_of i\<close> is the distance of node \<open>i\<close> from the root.
\<close>

fun depth_of :: "nat \<Rightarrow> nat" where
  "depth_of i = (if i = 0 then 0 else Suc (depth_of ((i - 1) div 2)))"

declare depth_of.simps [simp del]

text \<open>The value \<open>buddy_init\<close> gives the field \<open>lvl\<close> of node \<open>i\<close>: the root has \<open>DEPTH - 1\<close>.\<close>

definition lvl_of :: "nat \<Rightarrow> nat" where
  "lvl_of i = DEPTH - 1 - depth_of i"

text \<open>
  The value \<open>buddy_init\<close> gives the field \<open>memory\<close> of node \<open>i\<close> when the root starts at \<open>b\<close>: a
  left child (odd index) starts where its parent does, a right child its own size further.
\<close>

fun mem_of :: "nat \<Rightarrow> nat \<Rightarrow> nat" where
  "mem_of b i =
     (if i = 0 then b
      else if i mod 2 = 1 then mem_of b ((i - 1) div 2)
      else mem_of b ((i - 1) div 2) + 2 ^ lvl_of i * PGSIZE)"

declare mem_of.simps [simp del]

text \<open>
  The fields of node \<open>i\<close> that \<open>buddy_init\<close> sets and no other function writes, in closed form.
\<close>

definition struct_node :: "nat \<Rightarrow> nat \<Rightarrow> node \<Rightarrow> bool" where
  "struct_node b i n \<longleftrightarrow>
     id_node n = i \<and>
     lvl n = lvl_of i \<and>
     size_node n = 2 ^ lvl_of i \<and>
     left_child n = (if i < NODES div 2 then Some (2 * i + 1) else None) \<and>
     right_child n = (if i < NODES div 2 then Some (2 * i + 2) else None) \<and>
     parent n = Some ((i - 1) div 2) \<and>
     neighbour n = Some (if i = 0 then 0 else if i mod 2 = 1 then i + 1 else i - 1) \<and>
     memory n = mem_of b i"

text \<open>Every node of the state has these fields.\<close>

definition struct_ok :: "nat \<Rightarrow> buddy_metadata \<Rightarrow> bool" where
  "struct_ok b s \<longleftrightarrow> (\<forall>i<NODES. struct_node b i (nodes s i))"

text \<open>The root as \<open>buddy_init\<close> writes it, before \<open>add_free_node\<close> is called on it.\<close>

definition root_node :: "nat \<Rightarrow> node" where
  "root_node end_addr =
     \<lparr>state = FREE, id_node = 0, size_node = PAGES, lvl = DEPTH - 1,
      left_child = Some 1, right_child = Some 2, prev = None, next_node = None,
      parent = Some 0, neighbour = Some 0, memory = PGROUNDUP end_addr\<rparr>"

text \<open>
  \<open>dll ns p h xs\<close>: following \<open>next\<close> from the pointer \<open>h\<close> visits the nodes \<open>xs\<close>, in this order,
  and ends in null; the \<open>prev\<close> of each node is the node before it, and \<open>p\<close> for the first.
\<close>

primrec dll :: "(nat \<Rightarrow> node) \<Rightarrow> ptr \<Rightarrow> ptr \<Rightarrow> nat list \<Rightarrow> bool" where
  "dll ns p h [] = (h = None)"
| "dll ns p h (x # xs) =
     (h = Some x \<and> x < NODES \<and> prev (ns x) = p \<and> dll ns (Some x) (next_node (ns x)) xs)"

text \<open>
  The free lists of the state \<open>s\<close> are the lists \<open>fl\<close> of indices: at every level \<open>l\<close> the list
  headed at \<open>lists[l]\<close> is \<open>fl l\<close>, doubly linked with a null \<open>prev\<close> at its head; no node is on
  it twice; its nodes have level \<open>l\<close>; \<open>sizes[l]\<close> is its length. A node that is not on the list
  of its level has null links.
\<close>

definition lists_ok :: "buddy_metadata \<Rightarrow> (nat \<Rightarrow> nat list) \<Rightarrow> bool" where
  "lists_ok s fl \<longleftrightarrow>
     (\<forall>l<DEPTH.
        dll (nodes s) None (lists s l) (fl l) \<and> distinct (fl l) \<and>
        (\<forall>x\<in>set (fl l). lvl_of x = l) \<and> sizes s l = int (length (fl l))) \<and>
     (\<forall>i<NODES. i \<notin> set (fl (lvl_of i)) \<longrightarrow>
        prev (nodes s i) = None \<and> next_node (nodes s i) = None)"

text \<open>Two states that differ in the links \<open>prev\<close> and \<open>next\<close> of their nodes only.\<close>

definition links_only :: "buddy_metadata \<Rightarrow> buddy_metadata \<Rightarrow> bool" where
  "links_only s s' \<longleftrightarrow> lock s' = lock s \<and>
     (\<forall>i. (nodes s' i)\<lparr>prev := None, next_node := None\<rparr> = (nodes s i)\<lparr>prev := None, next_node := None\<rparr>)"

text \<open>The parent and the neighbour (the buddy) of a node, by index; the root is its own.\<close>

definition parent_of :: "nat \<Rightarrow> nat" where
  "parent_of i = (i - 1) div 2"

definition nb_of :: "nat \<Rightarrow> nat" where
  "nb_of i = (if i = 0 then 0 else if i mod 2 = 1 then i + 1 else i - 1)"

text \<open>The states of the nodes of a state of the allocator.\<close>

definition states :: "buddy_metadata \<Rightarrow> nat \<Rightarrow> node_state" where
  "states s i = state (nodes s i)"

text \<open>
  The shape of the tree of states: the root exists; the children of an INNER node exist and are
  not both FREE; the children of any other node do not exist; a leaf is never INNER.
\<close>

definition tree_ok :: "(nat \<Rightarrow> node_state) \<Rightarrow> bool" where
  "tree_ok st \<longleftrightarrow>
     st 0 \<noteq> NONEXISTENT \<and>
     (\<forall>i<NODES div 2.
        if st i = INNER
        then st (2 * i + 1) \<noteq> NONEXISTENT \<and> st (2 * i + 2) \<noteq> NONEXISTENT \<and>
             (st (2 * i + 1) \<noteq> FREE \<or> st (2 * i + 2) \<noteq> FREE)
        else st (2 * i + 1) = NONEXISTENT \<and> st (2 * i + 2) = NONEXISTENT) \<and>
     (\<forall>i<NODES. NODES div 2 \<le> i \<longrightarrow> st i \<noteq> INNER)"

text \<open>The list of level \<open>l\<close> holds, once each, the FREE nodes of level \<open>l\<close>.\<close>

definition content :: "(nat \<Rightarrow> node_state) \<Rightarrow> (nat \<Rightarrow> nat list) \<Rightarrow> bool" where
  "content st fl \<longleftrightarrow>
     (\<forall>l<DEPTH. distinct (fl l) \<and>
        (\<forall>i. i \<in> set (fl l) \<longleftrightarrow> i < NODES \<and> st i = FREE \<and> lvl_of i = l))"

text \<open>The invariant of the abstract state: the states of the nodes and the free lists.\<close>

definition ainv :: "(nat \<Rightarrow> node_state) \<Rightarrow> (nat \<Rightarrow> nat list) \<Rightarrow> bool" where
  "ainv st fl \<longleftrightarrow> tree_ok st \<and> content st fl"

text \<open>
  The allocator in the words of the specification, on an abstract state: the state of every
  node and, for every level, the free list as a list of node indices, head first.
\<close>

type_synonym astate = "(nat \<Rightarrow> node_state) \<times> (nat \<Rightarrow> nat list)"

text \<open>
  \<open>k\<close> rounds of the split loop from node \<open>c\<close>: the node becomes INNER, its right child FREE and
  the head of the list of its level, and the walk goes on in the left child.
\<close>

fun a_split :: "nat \<Rightarrow> nat \<Rightarrow> astate \<Rightarrow> nat \<times> astate" where
  "a_split 0 c (st, fl) = (c, (st, fl))"
| "a_split (Suc k) c (st, fl) =
     a_split k (2 * c + 1)
       (st(c := INNER, 2 * c + 2 := FREE),
        fl(lvl_of (2 * c + 2) := (2 * c + 2) # fl (lvl_of (2 * c + 2))))"

text \<open>
  The coalescing loop from node \<open>c\<close>: while the node is not the root and its neighbour is FREE,
  both become NONEXISTENT, the neighbour leaves the list of its level, and the walk goes on in
  the parent.
\<close>

function a_coalesce :: "nat \<Rightarrow> astate \<Rightarrow> nat \<times> astate" where
  "a_coalesce c (st, fl) =
     (if c \<noteq> 0 \<and> st (nb_of c) = FREE
      then a_coalesce (parent_of c)
             (st(c := NONEXISTENT, nb_of c := NONEXISTENT),
              fl(lvl_of (nb_of c) := remove1 (nb_of c) (fl (lvl_of (nb_of c)))))
      else (c, (st, fl)))"
  by pat_completeness auto
termination
  by (relation "measure (\<lambda>(c, a). c)") (auto simp: parent_of_def)

declare a_coalesce.simps [simp del]

text \<open>The node becomes FREE and the head of the list of its level.\<close>

definition a_release :: "nat \<Rightarrow> astate \<Rightarrow> astate" where
  "a_release c a = (case a of (st, fl) \<Rightarrow> (st(c := FREE), fl(lvl_of c := c # fl (lvl_of c))))"

text \<open>Freeing the USED node \<open>c\<close>: coalesce from it, release the node reached.\<close>

definition a_free :: "nat \<Rightarrow> astate \<Rightarrow> astate" where
  "a_free c a = (case a_coalesce c a of (c', a') \<Rightarrow> a_release c' a')"

text \<open>\<open>anc a c\<close>: node \<open>a\<close> is node \<open>c\<close> or one of its ancestors.\<close>

inductive anc :: "nat \<Rightarrow> nat \<Rightarrow> bool" where
  anc_refl: "anc c c"
| anc_left: "anc (2 * a + 1) c \<Longrightarrow> anc a c"
| anc_right: "anc (2 * a + 2) c \<Longrightarrow> anc a c"

text \<open>The bytes node \<open>i\<close> stands for: \<open>2 ^ lvl\<close> pages from its \<open>memory\<close> on.\<close>

definition block :: "nat \<Rightarrow> nat \<Rightarrow> nat set" where
  "block b i = {mem_of b i ..< mem_of b i + 2 ^ lvl_of i * PGSIZE}"

text \<open>No node above level 9 is USED.\<close>

definition used_ok :: "(nat \<Rightarrow> node_state) \<Rightarrow> bool" where
  "used_ok st \<longleftrightarrow> (\<forall>i<NODES. st i = USED \<longrightarrow> lvl_of i \<le> 9)"

text \<open>
  Allocation at level \<open>l\<close> from the list of level \<open>sl\<close>, in the words of the specification: the
  head of the list leaves it, is split \<open>sl - l\<close> times, and the node reached becomes USED.
\<close>

definition a_alloc :: "nat \<Rightarrow> nat \<Rightarrow> astate \<Rightarrow> nat \<times> astate" where
  "a_alloc l sl a =
     (case a of (st, fl) \<Rightarrow>
        (case a_split (sl - l) (hd (fl sl)) (st, fl(sl := tl (fl sl))) of
           (c, (st', fl')) \<Rightarrow> (c, (st'(c := USED), fl'))))"

text \<open>
  The invariant of the allocator: the fields fixed by \<open>buddy_init\<close>, no USED node above level 9,
  and free lists that are lists \<open>fl\<close> satisfying the abstract invariant.
\<close>

definition inv_state :: "nat \<Rightarrow> buddy_metadata \<Rightarrow> bool" where
  "inv_state b s \<longleftrightarrow>
     struct_ok b s \<and> used_ok (states s) \<and> (\<exists>fl. lists_ok s fl \<and> ainv (states s) fl)"

text \<open>
  The outstanding allocations, as pairs of the address returned and the number of pages asked
  for: no address twice, and each is the start of a USED node of that size.
\<close>

definition out_ok :: "nat \<Rightarrow> buddy_metadata \<Rightarrow> (nat \<times> int) list \<Rightarrow> bool" where
  "out_ok b s out \<longleftrightarrow>
     distinct (map fst out) \<and>
     (\<forall>(a, n) \<in> set out. \<exists>i<NODES. states s i = USED \<and> a = mem_of b i \<and> n = 2 ^ lvl_of i)"

text \<open>
  The states reachable from \<open>buddy_init\<close>, run on any state, by calls of \<open>buddy_alloc\<close> and
  \<open>buddy_free\<close> that return, with the outstanding allocations, newest first: an allocation
  that returns a non-null address adds it, a free takes its address out. \<open>end\<close> and \<open>PHYSTOP\<close>
  are fixed.
\<close>

inductive reach :: "nat \<Rightarrow> nat \<Rightarrow> buddy_metadata \<Rightarrow> (nat \<times> int) list \<Rightarrow> bool"
  for end_addr :: nat and PHYSTOP :: nat where
  reach_init: "buddy_init end_addr s0 = Some s \<Longrightarrow> reach end_addr PHYSTOP s []"
| reach_alloc: "reach end_addr PHYSTOP s out \<Longrightarrow> buddy_alloc n s = Some (a, s') \<Longrightarrow>
     reach end_addr PHYSTOP s' (if a = 0 then out else (a, n) # out)"
| reach_free: "reach end_addr PHYSTOP s out \<Longrightarrow>
     buddy_free end_addr PHYSTOP pa s = Some (Freed s') \<Longrightarrow>
     reach end_addr PHYSTOP s' (filter (\<lambda>(a, n). a \<noteq> pa) out)"

text \<open>The free lists after \<open>buddy_init\<close>: the root alone, at the top level.\<close>

definition fl_init :: "nat \<Rightarrow> nat list" where
  "fl_init = (\<lambda>_. [])(DEPTH - 1 := [0])"

text \<open>
  A state with something left in every place: the lock taken, every list headed at node 5 with
  count 7, every node USED at level 2 with a neighbour on its list.
\<close>

definition stale_metadata :: buddy_metadata where
  "stale_metadata =
     \<lparr>lock = [Acquire],
      nodes = (\<lambda>_. zero_node\<lparr>state := USED, lvl := 2, prev := Some 4, next_node := Some 3\<rparr>),
      lists = (\<lambda>_. Some 5), sizes = (\<lambda>_. 7)\<rparr>"

text \<open>
  When \<open>buddy_alloc\<close> returns null, as the specification states it: the cap on \<open>n\<close> is
  \<open>PAGES / 2\<close> there.
\<close>

definition alloc_fails_spec :: "int \<Rightarrow> buddy_metadata \<Rightarrow> bool" where
  "alloc_fails_spec n s \<longleftrightarrow>
     n \<le> 0 \<or> n > int (PAGES div 2) \<or> (\<forall>k. n \<noteq> 2 ^ k) \<or>
     (\<exists>k. n = 2 ^ k \<and> (\<forall>j. k \<le> j \<and> j < DEPTH \<longrightarrow> sizes s j \<le> 0))"

text \<open>The same with the cap of the source, 512.\<close>

definition alloc_fails :: "int \<Rightarrow> buddy_metadata \<Rightarrow> bool" where
  "alloc_fails n s \<longleftrightarrow>
     n \<le> 0 \<or> n > 512 \<or> (\<forall>k. n \<noteq> 2 ^ k) \<or>
     (\<exists>k. n = 2 ^ k \<and> (\<forall>j. k \<le> j \<and> j < DEPTH \<longrightarrow> sizes s j \<le> 0))"

text \<open>
  The descent of \<open>buddy_free\<close> in the words of the specification, on the states of the nodes
  and the addresses their indices fix: from node \<open>c\<close>, while the node is INNER, go to the left
  child if the right child starts strictly above \<open>pa\<close>, to the right child otherwise. Leaves
  have no children.
\<close>

function a_descend :: "nat \<Rightarrow> (nat \<Rightarrow> node_state) \<Rightarrow> nat \<Rightarrow> nat \<Rightarrow> nat" where
  "a_descend b st pa c =
     (if c < NODES div 2 \<and> st c = INNER
      then (if mem_of b (2 * c + 2) > pa
            then a_descend b st pa (2 * c + 1)
            else a_descend b st pa (2 * c + 2))
      else c)"
  by pat_completeness auto
termination
  by (relation "measure (\<lambda>(b, st, pa, c). NODES - c)") (auto simp: NODES_def PAGES_def)

declare a_descend.simps [simp del]


section \<open>Properties\<close>

lemma NODES_pos: "0 < NODES" by (simp add: NODES_def PAGES_def)
lemma NODES_pow: "NODES = 2 ^ DEPTH - 1" by (simp add: NODES_def PAGES_def DEPTH_def)
lemma PAGES_pow: "PAGES = 2 ^ (DEPTH - 1)" by (simp add: PAGES_def DEPTH_def)
lemma NODES_half: "NODES div 2 = 2 ^ (DEPTH - 1) - 1" by (simp add: NODES_def PAGES_def DEPTH_def)
lemma DEPTH_pos: "0 < DEPTH" by (simp add: DEPTH_def)

lemma depth_of_0 [simp]: "depth_of 0 = 0" by (simp add: depth_of.simps)
lemma depth_of_left [simp]: "depth_of (2 * i + 1) = Suc (depth_of i)"
  by (subst depth_of.simps) simp
lemma depth_of_right [simp]: "depth_of (2 * i + 2) = Suc (depth_of i)"
  by (subst depth_of.simps) simp
lemma depth_of_Suc_left [simp]: "depth_of (Suc (2 * i)) = Suc (depth_of i)"
  using depth_of_left[of i] by simp
lemma depth_of_Suc_right [simp]: "depth_of (Suc (Suc (2 * i))) = Suc (depth_of i)"
  using depth_of_right[of i] by simp
lemma depth_of_parent: "0 < i \<Longrightarrow> depth_of i = Suc (depth_of ((i - 1) div 2))"
  by (subst depth_of.simps) simp

lemma depth_of_bounds: "2 ^ depth_of i \<le> i + 1 \<and> i + 1 < 2 ^ (depth_of i + 1)"
proof (induction i rule: less_induct)
  case (less i)
  show ?case
  proof (cases "i = 0")
    case True
    then show ?thesis by simp
  next
    case False
    let ?p = "(i - 1) div 2"
    from False have lt: "?p < i" by simp
    have d: "depth_of i = Suc (depth_of ?p)" using False by (simp add: depth_of_parent)
    have p1: "?p + 1 = (i + 1) div 2" using False by simp
    from less.IH[OF lt] have lo: "2 ^ depth_of ?p \<le> (i + 1) div 2"
      and hi: "(i + 1) div 2 < 2 ^ (depth_of ?p + 1)" using p1 by simp_all
    from lo have "2 * 2 ^ depth_of ?p \<le> i + 1" by linarith
    moreover from hi have "i + 1 < 2 * 2 ^ (depth_of ?p + 1)" by linarith
    ultimately show ?thesis using d by simp
  qed
qed

lemma depth_of_less_iff: "depth_of i < d \<longleftrightarrow> i + 1 < 2 ^ d"
proof
  assume "depth_of i < d"
  then have "(2::nat) ^ (depth_of i + 1) \<le> 2 ^ d" by (intro power_increasing) simp_all
  with depth_of_bounds[of i] show "i + 1 < 2 ^ d" by linarith
next
  assume a: "i + 1 < 2 ^ d"
  show "depth_of i < d"
  proof (rule ccontr)
    assume "\<not> depth_of i < d"
    then have "(2::nat) ^ d \<le> 2 ^ depth_of i" by (intro power_increasing) simp_all
    with depth_of_bounds[of i] a show False by linarith
  qed
qed

lemma depth_of_lt_DEPTH: "i < NODES \<longleftrightarrow> depth_of i < DEPTH"
  unfolding depth_of_less_iff NODES_pow by (simp add: DEPTH_def) 

lemma depth_of_inner: "i < NODES div 2 \<longleftrightarrow> depth_of i < DEPTH - 1"
  unfolding depth_of_less_iff NODES_half by (simp add: DEPTH_def) 

lemma lvl_of_lt_DEPTH [simp]: "lvl_of i < DEPTH"
  by (simp add: lvl_of_def DEPTH_def)

lemma lvl_of_0 [simp]: "lvl_of 0 = DEPTH - 1" by (simp add: lvl_of_def)

lemma lvl_of_pos_iff: "i < NODES \<Longrightarrow> 0 < lvl_of i \<longleftrightarrow> i < NODES div 2"
  by (auto simp: lvl_of_def depth_of_inner depth_of_lt_DEPTH)

lemma half_lt_NODES: "i < NODES div 2 \<Longrightarrow> i < NODES" by simp

lemma children_lt_NODES: "i < NODES div 2 \<longleftrightarrow> 2 * i + 2 < NODES"
  by (simp add: NODES_def PAGES_def) linarith

lemma lvl_of_left: "i < NODES div 2 \<Longrightarrow> lvl_of (2 * i + 1) = lvl_of i - 1"
  by (simp add: lvl_of_def)
lemma lvl_of_right: "i < NODES div 2 \<Longrightarrow> lvl_of (2 * i + 2) = lvl_of i - 1"
  by (simp add: lvl_of_def)

lemma lvl_of_parent: "0 < i \<Longrightarrow> i < NODES \<Longrightarrow> lvl_of ((i - 1) div 2) = Suc (lvl_of i)"
  by (simp add: lvl_of_def depth_of_parent[of i] depth_of_lt_DEPTH) 

lemma parent_inner: "0 < i \<Longrightarrow> i < NODES \<Longrightarrow> (i - 1) div 2 < NODES div 2"
  by (simp add: NODES_def PAGES_def)

lemma mem_of_0 [simp]: "mem_of b 0 = b" by (simp add: mem_of.simps)
lemma mem_of_left: "mem_of b (2 * i + 1) = mem_of b i"
  by (subst mem_of.simps) simp
lemma mem_of_right: "mem_of b (2 * i + 2) = mem_of b i + 2 ^ lvl_of (2 * i + 2) * PGSIZE"
  by (subst mem_of.simps) simp

lemma upd_node_simps [simp]:
  "nodes (upd_node i f s) j = (if j = i then f (nodes s i) else nodes s j)"
  "lists (upd_node i f s) = lists s"
  "sizes (upd_node i f s) = sizes s"
  "lock (upd_node i f s) = lock s"
  by (simp_all add: upd_node_def)

lemma acquire_simps [simp]:
  "nodes (acquire s) = nodes s" "lists (acquire s) = lists s"
  "sizes (acquire s) = sizes s" "lock (acquire s) = lock s @ [Acquire]"
  by (simp_all add: acquire_def)

lemma release_simps [simp]:
  "nodes (release s) = nodes s" "lists (release s) = lists s"
  "sizes (release s) = sizes s" "lock (release s) = lock s @ [Release]"
  by (simp_all add: release_def)

lemma deref_Some [simp]: "deref (Some i) = (if i < NODES then Some i else None)"
  by (simp add: deref_def)

lemma deref_None [simp]: "deref None = None"
  by (simp add: deref_def)

lemma deref_eq_Some: "deref p = Some i \<longleftrightarrow> p = Some i \<and> i < NODES"
  by (auto simp: deref_def split: option.splits)

subsection \<open>buddy\_init\<close>

lemma fold_clear_level:
  "lists (fold clear_level xs s) l = (if l \<in> set xs then None else lists s l)"
  "sizes (fold clear_level xs s) l = (if l \<in> set xs then 0 else sizes s l)"
  "nodes (fold clear_level xs s) = nodes s"
  "lock (fold clear_level xs s) = lock s"
  by (induction xs arbitrary: s) (simp_all add: clear_level_def)

lemma fold_init_node_frame:
  "lists (fold init_node xs s) = lists s"
  "sizes (fold init_node xs s) = sizes s"
  "lock (fold init_node xs s) = lock s"
  by (induction xs arbitrary: s) (simp_all add: init_node_def)

lemma nodes_init_node:
  "nodes (init_node i s) j =
     (if j = i then child_node i (nodes s ((i - 1) div 2)) else nodes s j)"
  by (simp add: init_node_def)

lemma upt_1_Suc: "0 < k \<Longrightarrow> [1..<Suc k] = [1..<k] @ [k]"
  by simp

lemma fold_init_node_nodes:
  "nodes (fold init_node [1..<k] s) j =
     (if 1 \<le> j \<and> j < k then child_node j (nodes (fold init_node [1..<k] s) ((j - 1) div 2))
      else nodes s j)"
proof (induction k arbitrary: j)
  case 0
  then show ?case by simp
next
  case (Suc k)
  show ?case
  proof (cases "k = 0")
    case True
    then show ?thesis by auto
  next
    case False
    then have k: "0 < k" by simp
    let ?s = "fold init_node [1..<k] s"
    have step: "fold init_node [1..<Suc k] s = init_node k ?s"
      using k by simp
    have par: "(j - 1) div 2 \<noteq> k" if "j \<le> k" for j
      using that k by simp
    show ?thesis
    proof (cases "j = k")
      case True
      then show ?thesis using k par[of k] by (simp add: step nodes_init_node)
    next
      case False
      show ?thesis
      proof (cases "1 \<le> j \<and> j < k")
        case True
        then have "(j - 1) div 2 \<noteq> k" using par[of j] by simp
        then show ?thesis using True False Suc.IH[of j] by (simp add: step nodes_init_node)
      next
        case ge: False
        then show ?thesis using False Suc.IH[of j] by (auto simp add: step nodes_init_node)
      qed
    qed
  qed
qed

lemma add_free_node_root:
  assumes "lists s (DEPTH - 1) = None" and "sizes s (DEPTH - 1) = 0"
  shows "\<exists>s'. add_free_node (Some 0) (init_root end_addr s) = Some s' \<and>
     lock s' = lock s \<and>
     (\<forall>j. nodes s' j = (if j = 0 then root_node end_addr else nodes s j)) \<and>
     (\<forall>l. lists s' l = (if l = DEPTH - 1 then Some 0 else lists s l)) \<and>
     (\<forall>l. sizes s' l = (if l = DEPTH - 1 then 1 else sizes s l))"
  using assms
  by (simp add: add_free_node_def NODES_pos DEPTH_pos Let_def init_root_def root_node_def)

lemma buddy_init_Some:
  "\<exists>s. buddy_init end_addr p = Some s \<and>
     lock s = [] \<and>
     (\<forall>l<DEPTH. lists s l = (if l = DEPTH - 1 then Some 0 else None)) \<and>
     (\<forall>l<DEPTH. sizes s l = (if l = DEPTH - 1 then 1 else 0)) \<and>
     nodes s 0 = root_node end_addr \<and>
     (\<forall>j. 1 \<le> j \<and> j < NODES \<longrightarrow> nodes s j = child_node j (nodes s ((j - 1) div 2)))"
proof -
  define s1 where "s1 = fold clear_level [0..<DEPTH] (p\<lparr>lock := []\<rparr>)"
  have c: "lists s1 l = None" "sizes s1 l = 0" if "l < DEPTH" for l
    using that by (simp_all add: s1_def fold_clear_level)
  have lk: "lock s1 = []" by (simp add: s1_def fold_clear_level)
  have top: "DEPTH - 1 < DEPTH" by (simp add: DEPTH_def)
  from add_free_node_root[OF c[OF top], of end_addr]
  obtain s3 where s3: "add_free_node (Some 0) (init_root end_addr s1) = Some s3"
    and f: "lock s3 = lock s1" "\<And>j. nodes s3 j = (if j = 0 then root_node end_addr else nodes s1 j)"
      "\<And>l. lists s3 l = (if l = DEPTH - 1 then Some 0 else lists s1 l)"
      "\<And>l. sizes s3 l = (if l = DEPTH - 1 then 1 else sizes s1 l)"
    by blast
  let ?s = "fold init_node [1..<NODES] s3"
  have e: "buddy_init end_addr p = Some ?s"
    by (simp add: buddy_init_def s1_def[symmetric] s3 Let_def)
  have n0: "nodes ?s 0 = root_node end_addr"
    by (subst fold_init_node_nodes) (simp add: f)
  have nj: "nodes ?s j = child_node j (nodes ?s ((j - 1) div 2))" if "1 \<le> j \<and> j < NODES" for j
    by (subst fold_init_node_nodes) (use that in simp)
  have ls: "lists ?s l = (if l = DEPTH - 1 then Some 0 else None)" if "l < DEPTH" for l
    using c(1)[OF that] by (simp add: fold_init_node_frame f)
  have sz: "sizes ?s l = (if l = DEPTH - 1 then 1 else 0)" if "l < DEPTH" for l
    using c(2)[OF that] by (simp add: fold_init_node_frame f)
  have "lock ?s = []" by (simp add: fold_init_node_frame f lk)
  then show ?thesis
    using e n0 nj ls sz by (intro exI[of _ ?s]) simp
qed

lemma dll_frame:
  "dll ns p h xs \<Longrightarrow>
   (\<And>x. x \<in> set xs \<Longrightarrow> prev (ns' x) = prev (ns x) \<and> next_node (ns' x) = next_node (ns x)) \<Longrightarrow>
   dll ns' p h xs"
  by (induction xs arbitrary: p h) auto

lemma dll_lt: "dll ns p h xs \<Longrightarrow> x \<in> set xs \<Longrightarrow> x < NODES"
  by (induction xs arbitrary: p h) auto

lemma dll_head: "dll ns p h xs \<Longrightarrow> h = (case xs of [] \<Rightarrow> None | x # _ \<Rightarrow> Some x)"
  by (cases xs) auto

lemma dll_mid:
  "dll ns p h (ys @ x # zs) \<Longrightarrow>
   prev (ns x) = (if ys = [] then p else Some (last ys)) \<and>
   next_node (ns x) = (case zs of [] \<Rightarrow> None | z # _ \<Rightarrow> Some z)"
proof (induction ys arbitrary: p h)
  case Nil
  then show ?case using dll_head[of ns "Some x" "next_node (ns x)" zs] by simp
next
  case (Cons y ys)
  from Cons.prems have "dll ns (Some y) (next_node (ns y)) (ys @ x # zs)" by simp
  from Cons.IH[OF this] show ?case by simp
qed

lemma dll_unlink:
  assumes "dll ns p h (ys @ x # zs)"
    and "distinct (ys @ x # zs)"
    and "\<And>q. p = Some q \<Longrightarrow> q \<notin> set (ys @ x # zs)"
    and A1: "\<And>i. i \<noteq> x \<Longrightarrow> Some i \<noteq> prev (ns x) \<Longrightarrow> next_node (ns' i) = next_node (ns i)"
    and A2: "\<And>i. Some i = prev (ns x) \<Longrightarrow> next_node (ns' i) = next_node (ns x)"
    and A3: "\<And>i. i \<noteq> x \<Longrightarrow> Some i \<noteq> next_node (ns x) \<Longrightarrow> prev (ns' i) = prev (ns i)"
    and A4: "\<And>i. Some i = next_node (ns x) \<Longrightarrow> prev (ns' i) = prev (ns x)"
  shows "dll ns' p (if ys = [] then next_node (ns x) else h) (ys @ zs)"
  using assms(1-3)
proof (induction ys arbitrary: p h)
  case Nil
  from Nil.prems have px: "prev (ns x) = p" and hz: "dll ns (Some x) (next_node (ns x)) zs"
    and d: "distinct (x # zs)" and pq: "\<And>q. p = Some q \<Longrightarrow> q \<notin> set (x # zs)"
    by auto
  show ?case
  proof (cases zs)
    case Nil
    then show ?thesis using hz by simp
  next
    case (Cons z zs')
    with hz have nx: "next_node (ns x) = Some z" and z: "z < NODES"
      and pz: "prev (ns z) = Some x" and rest: "dll ns (Some z) (next_node (ns z)) zs'"
      by auto
    have zx: "z \<noteq> x" using d Cons by auto
    have zp: "Some z \<noteq> prev (ns x)" using pq[of z] px Cons by auto
    have 1: "prev (ns' z) = p" using A4[of z] nx px by simp
    have 2: "next_node (ns' z) = next_node (ns z)" using A1[OF zx zp] .
    have 3: "dll ns' (Some z) (next_node (ns z)) zs'"
    proof (rule dll_frame[OF rest])
      fix i assume i: "i \<in> set zs'"
      then have "i \<noteq> x" "i \<noteq> z" using d Cons by auto
      moreover have "Some i \<noteq> prev (ns x)" using pq[of i] px i Cons by auto
      ultimately show "prev (ns' i) = prev (ns i) \<and> next_node (ns' i) = next_node (ns i)"
        using A1[of i] A3[of i] nx by simp
    qed
    show ?thesis using Cons nx z 1 2 3 by simp
  qed
next
  case (Cons y ys)
  from Cons.prems have hy: "h = Some y" and y: "y < NODES" and py: "prev (ns y) = p"
    and rest: "dll ns (Some y) (next_node (ns y)) (ys @ x # zs)"
    and d: "distinct (ys @ x # zs)" and yn: "y \<notin> set (ys @ x # zs)"
    by auto
  have IH: "dll ns' (Some y) (if ys = [] then next_node (ns x) else next_node (ns y)) (ys @ zs)"
    using Cons.IH[OF rest d] yn by simp
  from dll_mid[OF rest] have px: "prev (ns x) = (if ys = [] then Some y else Some (last ys))"
    and nx: "next_node (ns x) = (case zs of [] \<Rightarrow> None | z # _ \<Rightarrow> Some z)" by auto
  have "y \<noteq> x" using yn by auto
  moreover have "Some y \<noteq> next_node (ns x)" using nx yn by (cases zs) auto
  ultimately have 1: "prev (ns' y) = p" using A3[of y] py by simp
  have 2: "next_node (ns' y) = (if ys = [] then next_node (ns x) else next_node (ns y))"
  proof (cases "ys = []")
    case True
    then show ?thesis using A2[of y] px by simp
  next
    case False
    then have "last ys \<in> set ys" by simp
    then have "Some y \<noteq> prev (ns x)" using px False yn by auto
    then show ?thesis using A1[of y] \<open>y \<noteq> x\<close> False by simp
  qed
  show ?case using hy y 1 2 IH by simp
qed

lemma dll_push:
  assumes "dll ns None h xs" and "distinct xs" and "n \<notin> set xs" and "n < NODES"
    and B1: "prev (ns' n) = None" and B2: "next_node (ns' n) = h"
    and B3: "\<And>i. i \<noteq> n \<Longrightarrow> next_node (ns' i) = next_node (ns i)"
    and B4: "\<And>i. i \<noteq> n \<Longrightarrow> Some i \<noteq> h \<Longrightarrow> prev (ns' i) = prev (ns i)"
    and B5: "\<And>i. Some i = h \<Longrightarrow> prev (ns' i) = Some n"
  shows "dll ns' None (Some n) (n # xs)"
proof (cases xs)
  case Nil
  then show ?thesis using assms by simp
next
  case (Cons m ys)
  with assms(1) have hm: "h = Some m" and m: "m < NODES"
    and rest: "dll ns (Some m) (next_node (ns m)) ys" by auto
  have mn: "m \<noteq> n" using assms(3) Cons by auto
  have "dll ns' (Some m) (next_node (ns m)) ys"
  proof (rule dll_frame[OF rest])
    fix i assume "i \<in> set ys"
    then have "i \<noteq> n" "i \<noteq> m" using assms(2,3) Cons by auto
    then show "prev (ns' i) = prev (ns i) \<and> next_node (ns' i) = next_node (ns i)"
      using B3[of i] B4[of i] hm by simp
  qed
  then show ?thesis using Cons hm m mn B1 B2 B3[of m] B5[of m] assms(4) by simp
qed

lemma add_free_node_pointwise:
  assumes "n < NODES" and "lvl (nodes s n) = l" and "l < DEPTH" and "lists s l = h"
    and "h \<noteq> Some n" and "\<And>m. h = Some m \<Longrightarrow> m < NODES"
  shows "\<exists>s'. add_free_node (Some n) s = Some s' \<and> lock s' = lock s \<and>
     sizes s' = (sizes s)(l := sizes s l + 1) \<and> lists s' = (lists s)(l := Some n) \<and>
     (\<forall>i. nodes s' i =
        (if i = n then (nodes s n)\<lparr>prev := None, next_node := h\<rparr>
         else if Some i = h then (nodes s i)\<lparr>prev := Some n\<rparr> else nodes s i))"
proof (cases h)
  case None
  then show ?thesis using assms by (simp add: add_free_node_def Let_def)
next
  case (Some m)
  then have "m < NODES" "m \<noteq> n" using assms by auto
  then show ?thesis using assms Some by (auto simp add: add_free_node_def Let_def)
qed

lemma unlink_pointwise:
  assumes "prev (nodes s x) = pq" and "next_node (nodes s x) = nq"
    and "pq \<noteq> Some x" and "nq \<noteq> Some x"
    and "\<And>q. pq = Some q \<Longrightarrow> q < NODES" and "\<And>q. nq = Some q \<Longrightarrow> q < NODES"
    and "lvl (nodes s x) = l" and "l < DEPTH" and "pq = nq \<Longrightarrow> pq = None"
  shows "\<exists>s'. unlink x s = Some s' \<and> lock s' = lock s \<and>
     sizes s' = (sizes s)(l := sizes s l - 1) \<and>
     lists s' = (if pq = None then (lists s)(l := nq) else lists s) \<and>
     (\<forall>i. nodes s' i =
        (if i = x then (nodes s x)\<lparr>prev := None, next_node := None\<rparr>
         else if Some i = pq then (nodes s i)\<lparr>next_node := nq\<rparr>
         else if Some i = nq then (nodes s i)\<lparr>prev := pq\<rparr> else nodes s i))"
proof (cases pq)
  case pn: None
  show ?thesis
  proof (cases nq)
    case None
    then show ?thesis using assms pn by (simp add: unlink_def Let_def)
  next
    case (Some b)
    then have "b < NODES" "b \<noteq> x" using assms by auto
    then show ?thesis using assms pn Some by (auto simp add: unlink_def Let_def)
  qed
next
  case ps: (Some a)
  then have a: "a < NODES" "a \<noteq> x" using assms by auto
  show ?thesis
  proof (cases nq)
    case None
    then show ?thesis using assms ps a by (auto simp add: unlink_def Let_def)
  next
    case (Some b)
    then have "b < NODES" "b \<noteq> x" "a \<noteq> b" using assms ps by auto
    then show ?thesis using assms ps a Some by (auto simp add: unlink_def Let_def)
  qed
qed

lemma struct_lvl: "struct_ok b s \<Longrightarrow> i < NODES \<Longrightarrow> lvl (nodes s i) = lvl_of i"
  by (simp add: struct_ok_def struct_node_def)

lemma links_only_refl: "links_only s s"
  by (simp add: links_only_def)

lemma links_only_trans: "links_only s t \<Longrightarrow> links_only t u \<Longrightarrow> links_only s u"
  by (simp add: links_only_def)

lemma links_only_fields:
  assumes "links_only s s'"
  shows "state (nodes s' i) = state (nodes s i)" "id_node (nodes s' i) = id_node (nodes s i)"
    "size_node (nodes s' i) = size_node (nodes s i)" "lvl (nodes s' i) = lvl (nodes s i)"
    "left_child (nodes s' i) = left_child (nodes s i)"
    "right_child (nodes s' i) = right_child (nodes s i)"
    "parent (nodes s' i) = parent (nodes s i)" "neighbour (nodes s' i) = neighbour (nodes s i)"
    "memory (nodes s' i) = memory (nodes s i)" "lock s' = lock s"
proof -
  from assms have e: "(nodes s' i)\<lparr>prev := None, next_node := None\<rparr> =
      (nodes s i)\<lparr>prev := None, next_node := None\<rparr>" and l: "lock s' = lock s"
    by (simp_all add: links_only_def)
  show "lock s' = lock s" by (rule l)
  from arg_cong[OF e, of state] show "state (nodes s' i) = state (nodes s i)" by simp
  from arg_cong[OF e, of id_node] show "id_node (nodes s' i) = id_node (nodes s i)" by simp
  from arg_cong[OF e, of size_node] show "size_node (nodes s' i) = size_node (nodes s i)" by simp
  from arg_cong[OF e, of lvl] show "lvl (nodes s' i) = lvl (nodes s i)" by simp
  from arg_cong[OF e, of left_child] show "left_child (nodes s' i) = left_child (nodes s i)" by simp
  from arg_cong[OF e, of right_child] show "right_child (nodes s' i) = right_child (nodes s i)" by simp
  from arg_cong[OF e, of parent] show "parent (nodes s' i) = parent (nodes s i)" by simp
  from arg_cong[OF e, of neighbour] show "neighbour (nodes s' i) = neighbour (nodes s i)" by simp
  from arg_cong[OF e, of memory] show "memory (nodes s' i) = memory (nodes s i)" by simp
qed

lemma links_only_struct: "links_only s s' \<Longrightarrow> struct_ok b s \<Longrightarrow> struct_ok b s'"
  by (simp add: struct_ok_def struct_node_def links_only_fields)

lemma lists_ok_lt: "lists_ok s fl \<Longrightarrow> l < DEPTH \<Longrightarrow> x \<in> set (fl l) \<Longrightarrow> x < NODES"
  unfolding lists_ok_def using dll_lt by blast

lemma add_free_node_lists:
  assumes st: "struct_ok b s" and ok: "lists_ok s fl" and n: "n < NODES"
    and nin: "n \<notin> set (fl (lvl_of n))"
  shows "\<exists>s'. add_free_node (Some n) s = Some s' \<and>
     lists_ok s' (fl(lvl_of n := n # fl (lvl_of n))) \<and> links_only s s'"
proof -
  let ?l = "lvl_of n"
  let ?h = "lists s ?l"
  have l: "?l < DEPTH" by simp
  have ln: "lvl (nodes s n) = ?l" using st n by (rule struct_lvl)
  from ok l have d: "dll (nodes s) None ?h (fl ?l)" and dist: "distinct (fl ?l)"
    and lv: "\<forall>x\<in>set (fl ?l). lvl_of x = ?l" and sz: "sizes s ?l = int (length (fl ?l))"
    unfolding lists_ok_def by blast+
  have hd: "?h = (case fl ?l of [] \<Rightarrow> None | x # _ \<Rightarrow> Some x)" using dll_head[OF d] .
  have hn: "?h \<noteq> Some n" using hd nin by (cases "fl ?l") auto
  have hm: "m < NODES" if "?h = Some m" for m
    using hd that dll_lt[OF d, of m] by (cases "fl ?l") auto
  have hin: "m \<in> set (fl ?l)" if "?h = Some m" for m
    using hd that by (cases "fl ?l") auto
  from add_free_node_pointwise[OF n ln l refl hn hm]
  obtain s' where r: "add_free_node (Some n) s = Some s'" and lk: "lock s' = lock s"
    and sz': "sizes s' = (sizes s)(?l := sizes s ?l + 1)"
    and ls': "lists s' = (lists s)(?l := Some n)"
    and ns': "\<And>i. nodes s' i =
        (if i = n then (nodes s n)\<lparr>prev := None, next_node := ?h\<rparr>
         else if Some i = ?h then (nodes s i)\<lparr>prev := Some n\<rparr> else nodes s i)"
    by blast
  have lo: "links_only s s'" using lk ns' by (simp add: links_only_def)
  have off: "prev (nodes s i) = None \<and> next_node (nodes s i) = None"
    if "i < NODES" "i \<notin> set (fl (lvl_of i))" for i
    using ok that unfolding lists_ok_def by blast
  have B: "\<forall>i<NODES. i \<notin> set ((fl(?l := n # fl ?l)) (lvl_of i)) \<longrightarrow>
      prev (nodes s' i) = None \<and> next_node (nodes s' i) = None"
  proof (intro allI impI)
    fix i assume i: "i < NODES" and ni: "i \<notin> set ((fl(?l := n # fl ?l)) (lvl_of i))"
    then have "i \<noteq> n" by auto
    moreover have o: "i \<notin> set (fl (lvl_of i))" using ni by (auto split: if_splits)
    moreover have "Some i \<noteq> ?h" using hin[of i] lv o by auto
    ultimately show "prev (nodes s' i) = None \<and> next_node (nodes s' i) = None"
      using off[OF i o] by (simp add: ns')
  qed
  have "\<forall>k<DEPTH. dll (nodes s') None (lists s' k) ((fl(?l := n # fl ?l)) k) \<and>
        distinct ((fl(?l := n # fl ?l)) k) \<and>
        (\<forall>x\<in>set ((fl(?l := n # fl ?l)) k). lvl_of x = k) \<and>
        sizes s' k = int (length ((fl(?l := n # fl ?l)) k))"
  proof (intro allI impI)
    fix k assume k: "k < DEPTH"
    show "dll (nodes s') None (lists s' k) ((fl(?l := n # fl ?l)) k) \<and>
        distinct ((fl(?l := n # fl ?l)) k) \<and>
        (\<forall>x\<in>set ((fl(?l := n # fl ?l)) k). lvl_of x = k) \<and>
        sizes s' k = int (length ((fl(?l := n # fl ?l)) k))"
    proof (cases "k = ?l")
      case True
      have "dll (nodes s') None (Some n) (n # fl ?l)"
        by (rule dll_push[OF d dist nin n]) (use hn in \<open>auto simp add: ns'\<close>)
      then show ?thesis using True dist nin lv sz by (simp add: ls' sz')
    next
      case False
      from ok k have dk: "dll (nodes s) None (lists s k) (fl k)" and rest: "distinct (fl k)"
        "\<forall>x\<in>set (fl k). lvl_of x = k" "sizes s k = int (length (fl k))"
        unfolding lists_ok_def by blast+
      have "dll (nodes s') None (lists s k) (fl k)"
      proof (rule dll_frame[OF dk])
        fix x assume x: "x \<in> set (fl k)"
        then have lx: "lvl_of x = k" using rest by blast
        then have "x \<noteq> n" using False by auto
        moreover have "Some x \<noteq> ?h" using hin[of x] lv lx False by auto
        ultimately show "prev (nodes s' x) = prev (nodes s x) \<and>
            next_node (nodes s' x) = next_node (nodes s x)" by (simp add: ns')
      qed
      then show ?thesis using False rest by (simp add: ls' sz')
    qed
  qed
  then have "lists_ok s' (fl(?l := n # fl ?l))" using B unfolding lists_ok_def by blast
  then show ?thesis using r lo by blast
qed

lemma unlink_lists:
  assumes st: "struct_ok b s" and ok: "lists_ok s fl" and xin: "x \<in> set (fl (lvl_of x))"
  shows "\<exists>s'. unlink x s = Some s' \<and>
     lists_ok s' (fl(lvl_of x := remove1 x (fl (lvl_of x)))) \<and> links_only s s' \<and>
     prev (nodes s' x) = None \<and> next_node (nodes s' x) = None"
proof -
  let ?l = "lvl_of x"
  have l: "?l < DEPTH" by simp
  from ok l have d: "dll (nodes s) None (lists s ?l) (fl ?l)" and dist: "distinct (fl ?l)"
    and lv: "\<forall>x\<in>set (fl ?l). lvl_of x = ?l" and sz: "sizes s ?l = int (length (fl ?l))"
    unfolding lists_ok_def by blast+
  have x: "x < NODES" using dll_lt[OF d xin] .
  have lx: "lvl (nodes s x) = ?l" using st x by (rule struct_lvl)
  from split_list[OF xin] obtain ys zs where f: "fl ?l = ys @ x # zs" by blast
  have xys: "x \<notin> set ys" "x \<notin> set zs" using dist f by auto
  have rm: "remove1 x (fl ?l) = ys @ zs" using f xys by (simp add: remove1_append)
  have d': "dll (nodes s) None (lists s ?l) (ys @ x # zs)" using d f by simp
  have dist': "distinct (ys @ x # zs)" using dist f by simp
  let ?pq = "prev (nodes s x)" and ?nq = "next_node (nodes s x)"
  from dll_mid[OF d'] have pq: "?pq = (if ys = [] then None else Some (last ys))"
    and nq: "?nq = (case zs of [] \<Rightarrow> None | z # _ \<Rightarrow> Some z)" by auto
  have pin: "q \<in> set ys" if "?pq = Some q" for q
    using pq that by (cases "ys = []") auto
  have nin: "q \<in> set zs" if "?nq = Some q" for q
    using nq that by (cases zs) auto
  have c1: "?pq \<noteq> Some x" using pin xys by blast
  have c2: "?nq \<noteq> Some x" using nin xys by blast
  have c3: "q < NODES" if "?pq = Some q" for q
    using pin[OF that] dll_lt[OF d'] by simp
  have c4: "q < NODES" if "?nq = Some q" for q
    using nin[OF that] dll_lt[OF d'] by simp
  have c5: "?pq = None" if "?pq = ?nq"
  proof (cases ?pq)
    case None then show ?thesis .
  next
    case (Some q)
    with pin[of q] nin[of q] that dist' show ?thesis by auto
  qed
  from unlink_pointwise[OF refl refl c1 c2 c3 c4 lx l c5]
  obtain s' where r: "unlink x s = Some s'" and lk: "lock s' = lock s"
    and sz': "sizes s' = (sizes s)(?l := sizes s ?l - 1)"
    and ls': "lists s' = (if ?pq = None then (lists s)(?l := ?nq) else lists s)"
    and ns': "\<And>i. nodes s' i =
        (if i = x then (nodes s x)\<lparr>prev := None, next_node := None\<rparr>
         else if Some i = ?pq then (nodes s i)\<lparr>next_node := ?nq\<rparr>
         else if Some i = ?nq then (nodes s i)\<lparr>prev := ?pq\<rparr> else nodes s i)"
    by blast
  have lo: "links_only s s'" using lk ns' by (simp add: links_only_def)
  have cl: "prev (nodes s' x) = None \<and> next_node (nodes s' x) = None" by (simp add: ns')
  have hd: "lists s ?l = (if ys = [] then Some x else Some (hd ys))"
    using dll_head[OF d'] by (cases ys) auto
  have "dll (nodes s') None (if ys = [] then ?nq else lists s ?l) (ys @ zs)"
  proof (rule dll_unlink[OF d' dist'])
    fix i assume "i \<noteq> x" "Some i \<noteq> ?pq"
    then show "next_node (nodes s' i) = next_node (nodes s i)" by (simp add: ns')
  next
    fix i assume "Some i = ?pq"
    then show "next_node (nodes s' i) = ?nq" using c1 by (auto simp add: ns')
  next
    fix i assume "i \<noteq> x" "Some i \<noteq> ?nq"
    then show "prev (nodes s' i) = prev (nodes s i)" by (simp add: ns')
  next
    fix i assume a: "Some i = ?nq"
    then have "Some i \<noteq> ?pq" using c5 by auto
    then show "prev (nodes s' i) = ?pq" using a c2 by (auto simp add: ns')
  qed simp
  then have dl: "dll (nodes s') None (lists s' ?l) (ys @ zs)"
    using pq by (cases "ys = []") (simp_all add: ls')
  have off: "prev (nodes s i) = None \<and> next_node (nodes s i) = None"
    if "i < NODES" "i \<notin> set (fl (lvl_of i))" for i
    using ok that unfolding lists_ok_def by blast
  have B: "\<forall>i<NODES. i \<notin> set ((fl(?l := remove1 x (fl ?l))) (lvl_of i)) \<longrightarrow>
      prev (nodes s' i) = None \<and> next_node (nodes s' i) = None"
  proof (intro allI impI)
    fix i assume i: "i < NODES" and ni: "i \<notin> set ((fl(?l := remove1 x (fl ?l))) (lvl_of i))"
    show "prev (nodes s' i) = None \<and> next_node (nodes s' i) = None"
    proof (cases "i = x")
      case True
      then show ?thesis using cl by simp
    next
      case False
      have o: "i \<notin> set (fl (lvl_of i))"
      proof (cases "lvl_of i = ?l")
        case True
        then show ?thesis using ni False rm f by auto
      next
        case ne: False
        then show ?thesis using ni by simp
      qed
      have "Some i \<noteq> ?pq" using pin[of i] lv f o by auto
      moreover have "Some i \<noteq> ?nq" using nin[of i] lv f o by auto
      ultimately show ?thesis using off[OF i o] False by (simp add: ns')
    qed
  qed
  have "\<forall>k<DEPTH. dll (nodes s') None (lists s' k) ((fl(?l := remove1 x (fl ?l))) k) \<and>
        distinct ((fl(?l := remove1 x (fl ?l))) k) \<and>
        (\<forall>y\<in>set ((fl(?l := remove1 x (fl ?l))) k). lvl_of y = k) \<and>
        sizes s' k = int (length ((fl(?l := remove1 x (fl ?l))) k))"
  proof (intro allI impI)
    fix k assume k: "k < DEPTH"
    show "dll (nodes s') None (lists s' k) ((fl(?l := remove1 x (fl ?l))) k) \<and>
        distinct ((fl(?l := remove1 x (fl ?l))) k) \<and>
        (\<forall>y\<in>set ((fl(?l := remove1 x (fl ?l))) k). lvl_of y = k) \<and>
        sizes s' k = int (length ((fl(?l := remove1 x (fl ?l))) k))"
    proof (cases "k = ?l")
      case True
      have "sizes s' ?l = int (length (ys @ zs))" using sz f by (simp add: sz')
      moreover have "\<forall>y\<in>set (ys @ zs). lvl_of y = ?l" using lv f by auto
      moreover have "distinct (ys @ zs)" using dist' by auto
      ultimately show ?thesis using True dl rm by simp
    next
      case False
      from ok k have dk: "dll (nodes s) None (lists s k) (fl k)" and rest: "distinct (fl k)"
        "\<forall>y\<in>set (fl k). lvl_of y = k" "sizes s k = int (length (fl k))"
        unfolding lists_ok_def by blast+
      have "dll (nodes s') None (lists s k) (fl k)"
      proof (rule dll_frame[OF dk])
        fix y assume y: "y \<in> set (fl k)"
        then have ly: "lvl_of y = k" using rest by blast
        have "y \<noteq> x" using ly False by auto
        moreover have "Some y \<noteq> ?pq" using pin[of y] lv f ly False by auto
        moreover have "Some y \<noteq> ?nq" using nin[of y] lv f ly False by auto
        ultimately show "prev (nodes s' y) = prev (nodes s y) \<and>
            next_node (nodes s' y) = next_node (nodes s y)" by (simp add: ns')
      qed
      then show ?thesis using False rest by (simp add: ls' sz')
    qed
  qed
  then have "lists_ok s' (fl(?l := remove1 x (fl ?l)))" using B unfolding lists_ok_def by blast
  then show ?thesis using r lo cl by blast
qed

lemma tree_ok_children:
  "tree_ok st \<Longrightarrow> i < NODES div 2 \<Longrightarrow> st i \<noteq> INNER \<Longrightarrow>
   st (2 * i + 1) = NONEXISTENT \<and> st (2 * i + 2) = NONEXISTENT"
  unfolding tree_ok_def by metis

lemma tree_ok_inner:
  "tree_ok st \<Longrightarrow> i < NODES div 2 \<Longrightarrow> st i = INNER \<Longrightarrow>
   st (2 * i + 1) \<noteq> NONEXISTENT \<and> st (2 * i + 2) \<noteq> NONEXISTENT \<and>
   (st (2 * i + 1) \<noteq> FREE \<or> st (2 * i + 2) \<noteq> FREE)"
  unfolding tree_ok_def by metis

lemma tree_ok_leaf: "tree_ok st \<Longrightarrow> i < NODES \<Longrightarrow> NODES div 2 \<le> i \<Longrightarrow> st i \<noteq> INNER"
  unfolding tree_ok_def by blast

lemma tree_okI:
  assumes "st 0 \<noteq> NONEXISTENT"
    and "\<And>i. i < NODES div 2 \<Longrightarrow> st i = INNER \<Longrightarrow>
       st (2 * i + 1) \<noteq> NONEXISTENT \<and> st (2 * i + 2) \<noteq> NONEXISTENT \<and>
       (st (2 * i + 1) \<noteq> FREE \<or> st (2 * i + 2) \<noteq> FREE)"
    and "\<And>i. i < NODES div 2 \<Longrightarrow> st i \<noteq> INNER \<Longrightarrow>
       st (2 * i + 1) = NONEXISTENT \<and> st (2 * i + 2) = NONEXISTENT"
    and "\<And>i. i < NODES \<Longrightarrow> NODES div 2 \<le> i \<Longrightarrow> st i \<noteq> INNER"
  shows "tree_ok st"
  unfolding tree_ok_def using assms by auto

lemma content_mem:
  "content st fl \<Longrightarrow> l < DEPTH \<Longrightarrow> x \<in> set (fl l) \<longleftrightarrow> x < NODES \<and> st x = FREE \<and> lvl_of x = l"
  unfolding content_def by blast

lemma content_distinct: "content st fl \<Longrightarrow> l < DEPTH \<Longrightarrow> distinct (fl l)"
  unfolding content_def by blast

lemma contentI:
  "(\<And>l. l < DEPTH \<Longrightarrow> distinct (fl l)) \<Longrightarrow>
   (\<And>l i. l < DEPTH \<Longrightarrow> i \<in> set (fl l) \<longleftrightarrow> i < NODES \<and> st i = FREE \<and> lvl_of i = l) \<Longrightarrow>
   content st fl"
  unfolding content_def by blast

lemma nb_parent:
  "0 < c \<Longrightarrow>
   (c = 2 * parent_of c + 1 \<and> nb_of c = 2 * parent_of c + 2) \<or>
   (c = 2 * parent_of c + 2 \<and> nb_of c = 2 * parent_of c + 1)"
  unfolding parent_of_def nb_of_def by (cases "c mod 2 = 1") presburger+

lemma nb_parent_ex:
  "0 < c \<Longrightarrow> \<exists>q. parent_of c = q \<and> nb_of c \<noteq> c \<and> q \<noteq> c \<and> q \<noteq> nb_of c \<and>
     ((c = 2 * q + 1 \<and> nb_of c = 2 * q + 2) \<or> (c = 2 * q + 2 \<and> nb_of c = 2 * q + 1))"
  unfolding parent_of_def nb_of_def by (cases "c mod 2 = 1") presburger+

lemma parent_of_inner: "0 < c \<Longrightarrow> c < NODES \<Longrightarrow> parent_of c < NODES div 2"
  unfolding parent_of_def by (rule parent_inner)

lemma nb_of_lt: "c < NODES \<Longrightarrow> nb_of c < NODES"
proof (cases "c = 0")
  case True
  then show ?thesis by (simp add: nb_of_def NODES_pos)
next
  case False
  assume c: "c < NODES"
  from False obtain q where q: "parent_of c = q"
    and cs: "(c = 2 * q + 1 \<and> nb_of c = 2 * q + 2) \<or> (c = 2 * q + 2 \<and> nb_of c = 2 * q + 1)"
    using nb_parent_ex[of c] by auto
  from False c have "2 * q + 2 < NODES"
    using parent_of_inner[of c] children_lt_NODES q by simp
  then show ?thesis using cs by auto
qed

lemma lvl_of_nb: "lvl_of (nb_of c) = lvl_of c"
proof (cases "c = 0")
  case True
  then show ?thesis by (simp add: nb_of_def)
next
  case False
  then obtain q where "(c = 2 * q + 1 \<and> nb_of c = 2 * q + 2) \<or> (c = 2 * q + 2 \<and> nb_of c = 2 * q + 1)"
    using nb_parent_ex[of c] by auto
  then show ?thesis
  proof (elim disjE conjE)
    assume "c = 2 * q + 1" "nb_of c = 2 * q + 2"
    then show ?thesis by (simp add: lvl_of_def)
  next
    assume "c = 2 * q + 2" "nb_of c = 2 * q + 1"
    then show ?thesis by (simp add: lvl_of_def)
  qed
qed

lemma parent_of_left [simp]: "parent_of (2 * i + 1) = i"
  by (simp add: parent_of_def)

lemma parent_of_right [simp]: "parent_of (2 * i + 2) = i"
  by (simp add: parent_of_def)

lemma parent_of_Suc [simp]: "parent_of (Suc (2 * i)) = i" "parent_of (Suc (Suc (2 * i))) = i"
  by (simp_all add: parent_of_def)

lemma parent_of_nb: "parent_of (nb_of c) = parent_of c"
proof (cases "c = 0")
  case True
  then show ?thesis by (simp add: nb_of_def)
next
  case False
  then obtain q where "(c = 2 * q + 1 \<and> nb_of c = 2 * q + 2) \<or> (c = 2 * q + 2 \<and> nb_of c = 2 * q + 1)"
    using nb_parent_ex[of c] by auto
  then show ?thesis
  proof (elim disjE conjE)
    assume "c = 2 * q + 1" "nb_of c = 2 * q + 2"
    then show ?thesis by simp
  next
    assume "c = 2 * q + 2" "nb_of c = 2 * q + 1"
    then show ?thesis by simp
  qed
qed

lemma lvl_of_parent_of: "0 < c \<Longrightarrow> c < NODES \<Longrightarrow> lvl_of (parent_of c) = Suc (lvl_of c)"
  unfolding parent_of_def by (rule lvl_of_parent)

text \<open>One round of the split loop, on the states and the lists.\<close>

lemma split_step_inv:
  assumes inv: "ainv (st(c := USED)) fl" and c: "c < NODES div 2"
  shows "2 * c + 2 \<notin> set (fl (lvl_of (2 * c + 2))) \<and>
    ainv (st(c := INNER, 2 * c + 2 := FREE, 2 * c + 1 := USED))
         (fl(lvl_of (2 * c + 2) := (2 * c + 2) # fl (lvl_of (2 * c + 2))))"
proof -
  let ?l = "2 * c + 1" and ?r = "2 * c + 2"
  let ?v = "st(c := USED)"
  let ?st = "st(c := INNER, ?r := FREE, ?l := USED)"
  from inv have t: "tree_ok ?v" and ct: "content ?v fl" by (simp_all add: ainv_def)
  from tree_ok_children[OF t c] have ch: "st ?l = NONEXISTENT" "st ?r = NONEXISTENT" by simp_all
  have rlt: "?r < NODES" using c children_lt_NODES by simp
  have nin: "?r \<notin> set (fl (lvl_of ?r))"
    using content_mem[OF ct lvl_of_lt_DEPTH, of ?r ?r] ch by simp
  have t': "tree_ok ?st"
  proof (rule tree_okI)
    show "?st 0 \<noteq> NONEXISTENT" using t by (auto simp: tree_ok_def split: if_splits)
  next
    fix i assume i: "i < NODES div 2" and inn: "?st i = INNER"
    then have "i = c \<or> (i \<noteq> c \<and> i \<noteq> ?l \<and> i \<noteq> ?r \<and> st i = INNER)"
      by (auto split: if_splits)
    then show "?st (2 * i + 1) \<noteq> NONEXISTENT \<and> ?st (2 * i + 2) \<noteq> NONEXISTENT \<and>
       (?st (2 * i + 1) \<noteq> FREE \<or> ?st (2 * i + 2) \<noteq> FREE)"
    proof
      assume "i = c" then show ?thesis by simp
    next
      assume a: "i \<noteq> c \<and> i \<noteq> ?l \<and> i \<noteq> ?r \<and> st i = INNER"
      then have "?v i = INNER" by simp
      from tree_ok_inner[OF t i this] a show ?thesis
        by (auto split: if_splits)
    qed
  next
    fix i assume i: "i < NODES div 2" and inn: "?st i \<noteq> INNER"
    then have ic: "i \<noteq> c" by auto
    have vi: "?v i \<noteq> INNER" using inn ic ch by (auto split: if_splits)
    from tree_ok_children[OF t i vi] ic
    show "?st (2 * i + 1) = NONEXISTENT \<and> ?st (2 * i + 2) = NONEXISTENT"
      by (auto split: if_splits)
  next
    fix i assume "i < NODES" "NODES div 2 \<le> i"
    then show "?st i \<noteq> INNER" using tree_ok_leaf[OF t, of i] c ch by (auto split: if_splits)
  qed
  have "content ?st (fl(lvl_of ?r := ?r # fl (lvl_of ?r)))"
  proof (rule contentI)
    fix l assume l: "l < DEPTH"
    show "distinct ((fl(lvl_of ?r := ?r # fl (lvl_of ?r))) l)"
      using content_distinct[OF ct l] nin by auto
  next
    fix l i assume l: "l < DEPTH"
    have m: "i \<in> set (fl l) \<longleftrightarrow> i < NODES \<and> ?v i = FREE \<and> lvl_of i = l"
      using content_mem[OF ct l] .
    show "i \<in> set ((fl(lvl_of ?r := ?r # fl (lvl_of ?r))) l) \<longleftrightarrow>
        i < NODES \<and> ?st i = FREE \<and> lvl_of i = l"
    proof (cases "i = ?r")
      case True
      then show ?thesis using rlt m ch by auto
    next
      case False
      then show ?thesis using m ch by (cases "i = c"; cases "i = ?l") auto
    qed
  qed
  then show ?thesis using nin t' by (simp add: ainv_def)
qed

text \<open>One round of the coalescing loop.\<close>

lemma coalesce_step_inv:
  assumes inv: "ainv (st(c := USED)) fl" and c0: "0 < c" and c: "c < NODES"
    and nbf: "st (nb_of c) = FREE"
  shows "nb_of c \<in> set (fl (lvl_of (nb_of c))) \<and>
    ainv (st(c := NONEXISTENT, nb_of c := NONEXISTENT, parent_of c := USED))
         (fl(lvl_of (nb_of c) := remove1 (nb_of c) (fl (lvl_of (nb_of c)))))"
proof -
  from nb_parent_ex[OF c0] obtain q where q: "parent_of c = q"
    and ne: "nb_of c \<noteq> c" "q \<noteq> c" "q \<noteq> nb_of c"
    and cs: "(c = 2 * q + 1 \<and> nb_of c = 2 * q + 2) \<or> (c = 2 * q + 2 \<and> nb_of c = 2 * q + 1)"
    by blast
  define n where "n = nb_of c"
  have pn: "parent_of n = q" using parent_of_nb[of c] q by (simp add: n_def)
  have ne': "n \<noteq> c" "q \<noteq> n" using ne by (simp_all add: n_def)
  have kid: "k = c \<or> k = n" if "k = 2 * q + 1 \<or> k = 2 * q + 2" for k
    using cs that unfolding n_def by auto
  let ?v = "st(c := USED)"
  let ?st = "st(c := NONEXISTENT, n := NONEXISTENT, q := USED)"
  from inv have t: "tree_ok ?v" and ct: "content ?v fl" by (simp_all add: ainv_def)
  have qi: "q < NODES div 2" using parent_of_inner[OF c0 c] q by simp
  have nl: "n < NODES" using nb_of_lt[OF c] by (simp add: n_def)
  have nf: "st n = FREE" using nbf by (simp add: n_def)
  have nin: "n \<in> set (fl (lvl_of n))"
    using content_mem[OF ct lvl_of_lt_DEPTH, of n n] nl nf ne' by simp
  have pin: "st q = INNER"
  proof (rule ccontr)
    assume "st q \<noteq> INNER"
    then have "?v q \<noteq> INNER" using ne by simp
    from tree_ok_children[OF t qi this] have "?v c = NONEXISTENT" using cs by metis
    then show False by simp
  qed
  have t': "tree_ok ?st"
  proof (rule tree_okI)
    have "?v 0 \<noteq> NONEXISTENT" using t by (simp add: tree_ok_def)
    moreover have "n \<noteq> 0" using cs by (auto simp: n_def)
    ultimately show "?st 0 \<noteq> NONEXISTENT" using c0 by (cases "q = 0") auto
  next
    fix i assume i: "i < NODES div 2" and inn: "?st i = INNER"
    then have a: "i \<noteq> c" "i \<noteq> n" "i \<noteq> q" "st i = INNER" by (auto split: if_splits)
    then have vi: "?v i = INNER" by simp
    have "?st k \<noteq> NONEXISTENT \<and> (?st k = FREE \<longrightarrow> ?v k = FREE)"
      if k: "k = 2 * i + 1 \<or> k = 2 * i + 2" for k
    proof -
      have pk: "parent_of k = i" using k by auto
      have kc: "k \<noteq> c" "k \<noteq> n" using pk a q pn by auto
      have "?v k \<noteq> NONEXISTENT" using tree_ok_inner[OF t i vi] k by auto
      then show ?thesis using kc by (cases "k = q") auto
    qed
    then show "?st (2 * i + 1) \<noteq> NONEXISTENT \<and> ?st (2 * i + 2) \<noteq> NONEXISTENT \<and>
       (?st (2 * i + 1) \<noteq> FREE \<or> ?st (2 * i + 2) \<noteq> FREE)"
      using tree_ok_inner[OF t i vi] by blast
  next
    fix i assume i: "i < NODES div 2" and inn: "?st i \<noteq> INNER"
    have "?st k = NONEXISTENT" if k: "k = 2 * i + 1 \<or> k = 2 * i + 2" for k
    proof (cases "i = q")
      case True
      then have "k = c \<or> k = n" using kid k by simp
      then show ?thesis using ne ne' by auto
    next
      case False
      have vi: "?v i \<noteq> INNER" using inn False nf by (auto split: if_splits)
      have pk: "parent_of k = i" using k by auto
      have vk: "?v k = NONEXISTENT" using k tree_ok_children[OF t i vi] by auto
      have "k \<noteq> q" using vk pin ne by auto
      moreover have "k \<noteq> c" using vk by auto
      ultimately show ?thesis using vk by simp
    qed
    then show "?st (2 * i + 1) = NONEXISTENT \<and> ?st (2 * i + 2) = NONEXISTENT" by simp
  next
    fix i assume "i < NODES" "NODES div 2 \<le> i"
    then show "?st i \<noteq> INNER" using tree_ok_leaf[OF t, of i] by (auto split: if_splits)
  qed
  have "content ?st (fl(lvl_of n := remove1 n (fl (lvl_of n))))"
  proof (rule contentI)
    fix l assume l: "l < DEPTH"
    show "distinct ((fl(lvl_of n := remove1 n (fl (lvl_of n)))) l)"
      using content_distinct[OF ct l] by auto
  next
    fix l i assume l: "l < DEPTH"
    have m: "i \<in> set (fl l) \<longleftrightarrow> i < NODES \<and> ?v i = FREE \<and> lvl_of i = l"
      using content_mem[OF ct l] .
    have d: "distinct (fl l)" using content_distinct[OF ct l] .
    show "i \<in> set ((fl(lvl_of n := remove1 n (fl (lvl_of n)))) l) \<longleftrightarrow>
        i < NODES \<and> ?st i = FREE \<and> lvl_of i = l"
    proof (cases "i = n")
      case True
      then show ?thesis using d m ne' by auto
    next
      case False
      then show ?thesis using m pin d by (cases "i = c"; cases "i = q") auto
    qed
  qed
  then show ?thesis using nin t' unfolding n_def q[symmetric] by (simp add: ainv_def)
qed

text \<open>The end of \<open>buddy_free\<close>: the node reached is marked free and put on its list.\<close>

lemma release_step_inv:
  assumes inv: "ainv (st(c := USED)) fl" and c: "c < NODES"
    and stop: "c = 0 \<or> st (nb_of c) \<noteq> FREE"
  shows "c \<notin> set (fl (lvl_of c)) \<and> ainv (st(c := FREE)) (fl(lvl_of c := c # fl (lvl_of c)))"
proof -
  let ?v = "st(c := USED)"
  let ?st = "st(c := FREE)"
  from inv have t: "tree_ok ?v" and ct: "content ?v fl" by (simp_all add: ainv_def)
  have nin: "c \<notin> set (fl (lvl_of c))"
    using content_mem[OF ct lvl_of_lt_DEPTH, of c c] by simp
  have t': "tree_ok ?st"
  proof (rule tree_okI)
    show "?st 0 \<noteq> NONEXISTENT" using t by (auto simp: tree_ok_def split: if_splits)
  next
    fix i assume i: "i < NODES div 2" and inn: "?st i = INNER"
    then have a: "i \<noteq> c" "?v i = INNER" by (auto split: if_splits)
    have "c = 2 * i + 1 \<Longrightarrow> nb_of c = 2 * i + 2" "c = 2 * i + 2 \<Longrightarrow> nb_of c = 2 * i + 1"
      by (simp_all add: nb_of_def)
    with tree_ok_inner[OF t i a(2)] a stop
    show "?st (2 * i + 1) \<noteq> NONEXISTENT \<and> ?st (2 * i + 2) \<noteq> NONEXISTENT \<and>
       (?st (2 * i + 1) \<noteq> FREE \<or> ?st (2 * i + 2) \<noteq> FREE)"
      by (auto split: if_splits)
  next
    fix i assume i: "i < NODES div 2" and inn: "?st i \<noteq> INNER"
    have vi: "?v i \<noteq> INNER" using inn by (auto split: if_splits)
    from tree_ok_children[OF t i vi]
    show "?st (2 * i + 1) = NONEXISTENT \<and> ?st (2 * i + 2) = NONEXISTENT"
      by (auto split: if_splits)
  next
    fix i assume "i < NODES" "NODES div 2 \<le> i"
    then show "?st i \<noteq> INNER" using tree_ok_leaf[OF t, of i] by (auto split: if_splits)
  qed
  have "content ?st (fl(lvl_of c := c # fl (lvl_of c)))"
  proof (rule contentI)
    fix l assume l: "l < DEPTH"
    show "distinct ((fl(lvl_of c := c # fl (lvl_of c))) l)"
      using content_distinct[OF ct l] nin by auto
  next
    fix l i assume l: "l < DEPTH"
    have m: "i \<in> set (fl l) \<longleftrightarrow> i < NODES \<and> ?v i = FREE \<and> lvl_of i = l"
      using content_mem[OF ct l] .
    show "i \<in> set ((fl(lvl_of c := c # fl (lvl_of c))) l) \<longleftrightarrow>
        i < NODES \<and> ?st i = FREE \<and> lvl_of i = l"
      using m c by (cases "i = c") auto
  qed
  then show ?thesis using nin t' by (simp add: ainv_def)
qed

text \<open>The start of \<open>buddy_alloc\<close>: a free node leaves its list.\<close>

lemma take_step_inv:
  assumes inv: "ainv st fl" and l: "l < DEPTH" and x: "x \<in> set (fl l)"
  shows "ainv (st(x := USED)) (fl(l := remove1 x (fl l)))"
proof -
  let ?st = "st(x := USED)"
  from inv have t: "tree_ok st" and ct: "content st fl" by (simp_all add: ainv_def)
  from content_mem[OF ct l, of x] x have xf: "x < NODES" "st x = FREE" "lvl_of x = l" by auto
  have t': "tree_ok ?st"
  proof (rule tree_okI)
    show "?st 0 \<noteq> NONEXISTENT" using t by (auto simp: tree_ok_def split: if_splits)
  next
    fix i assume i: "i < NODES div 2" and inn: "?st i = INNER"
    then have a: "i \<noteq> x" "st i = INNER" by (auto split: if_splits)
    from tree_ok_inner[OF t i a(2)] a xf
    show "?st (2 * i + 1) \<noteq> NONEXISTENT \<and> ?st (2 * i + 2) \<noteq> NONEXISTENT \<and>
       (?st (2 * i + 1) \<noteq> FREE \<or> ?st (2 * i + 2) \<noteq> FREE)"
      by (auto split: if_splits)
  next
    fix i assume i: "i < NODES div 2" and inn: "?st i \<noteq> INNER"
    have vi: "st i \<noteq> INNER" using inn xf by (auto split: if_splits)
    from tree_ok_children[OF t i vi] xf
    show "?st (2 * i + 1) = NONEXISTENT \<and> ?st (2 * i + 2) = NONEXISTENT"
      by (auto split: if_splits)
  next
    fix i assume "i < NODES" "NODES div 2 \<le> i"
    then show "?st i \<noteq> INNER" using tree_ok_leaf[OF t, of i] by (auto split: if_splits)
  qed
  have "content ?st (fl(l := remove1 x (fl l)))"
  proof (rule contentI)
    fix k assume k: "k < DEPTH"
    show "distinct ((fl(l := remove1 x (fl l))) k)"
      using content_distinct[OF ct k] by auto
  next
    fix k i assume k: "k < DEPTH"
    have m: "i \<in> set (fl k) \<longleftrightarrow> i < NODES \<and> st i = FREE \<and> lvl_of i = k"
      using content_mem[OF ct k] .
    have d: "distinct (fl k)" using content_distinct[OF ct k] .
    show "i \<in> set ((fl(l := remove1 x (fl l))) k) \<longleftrightarrow>
        i < NODES \<and> ?st i = FREE \<and> lvl_of i = k"
      using m d xf by (cases "i = x") auto
  qed
  then show ?thesis using t' by (simp add: ainv_def)
qed

lemma virtual_parent_inner:
  assumes inv: "ainv (st(c := USED)) fl" and c0: "0 < c" and c: "c < NODES"
  shows "st (parent_of c) = INNER"
proof -
  from nb_parent_ex[OF c0] obtain q where q: "parent_of c = q" and ne: "q \<noteq> c"
    and cs: "(c = 2 * q + 1 \<and> nb_of c = 2 * q + 2) \<or> (c = 2 * q + 2 \<and> nb_of c = 2 * q + 1)"
    by blast
  let ?v = "st(c := USED)"
  from inv have t: "tree_ok ?v" by (simp add: ainv_def)
  have qi: "q < NODES div 2" using parent_of_inner[OF c0 c] q by simp
  have "st q = INNER"
  proof (rule ccontr)
    assume "st q \<noteq> INNER"
    then have "?v q \<noteq> INNER" using ne by simp
    from tree_ok_children[OF t qi this] have "?v c = NONEXISTENT" using cs by metis
    then show False by simp
  qed
  then show ?thesis using q by simp
qed

lemma virtual_children:
  assumes inv: "ainv (st(c := USED)) fl" and c: "c < NODES div 2"
  shows "st (2 * c + 1) = NONEXISTENT" "st (2 * c + 2) = NONEXISTENT"
proof -
  from inv have t: "tree_ok (st(c := USED))" by (simp add: ainv_def)
  from tree_ok_children[OF t c] show "st (2 * c + 1) = NONEXISTENT" "st (2 * c + 2) = NONEXISTENT"
    by simp_all
qed

lemma states_upd_state [simp]:
  "states (upd_node i (\<lambda>x. x\<lparr>state := v\<rparr>) s) = (states s)(i := v)"
  by (auto simp: states_def fun_eq_iff)

lemma states_acquire [simp]: "states (acquire s) = states s"
  by (simp add: states_def fun_eq_iff)

lemma states_release [simp]: "states (release s) = states s"
  by (simp add: states_def fun_eq_iff)

lemma struct_node_state [simp]: "struct_node b i (n\<lparr>state := v\<rparr>) = struct_node b i n"
  by (simp add: struct_node_def)

lemma struct_upd_state [simp]:
  "struct_ok b (upd_node i (\<lambda>x. x\<lparr>state := v\<rparr>) s) = struct_ok b s"
  by (auto simp: struct_ok_def)

lemma struct_acquire [simp]: "struct_ok b (acquire s) = struct_ok b s"
  by (simp add: struct_ok_def)

lemma struct_release [simp]: "struct_ok b (release s) = struct_ok b s"
  by (simp add: struct_ok_def)

lemma dll_upd_state:
  "dll (nodes (upd_node i (\<lambda>x. x\<lparr>state := v\<rparr>) s)) p h xs = dll (nodes s) p h xs"
  by (induction xs arbitrary: p h) auto

lemma lists_ok_upd_state [simp]:
  "lists_ok (upd_node i (\<lambda>x. x\<lparr>state := v\<rparr>) s) fl = lists_ok s fl"
  by (auto simp add: lists_ok_def dll_upd_state)

lemma lists_ok_acquire [simp]: "lists_ok (acquire s) fl = lists_ok s fl"
  by (simp add: lists_ok_def)

lemma lists_ok_release [simp]: "lists_ok (release s) fl = lists_ok s fl"
  by (simp add: lists_ok_def)

lemma links_only_states: "links_only s s' \<Longrightarrow> states s' = states s"
  by (simp add: states_def fun_eq_iff links_only_fields)

lemma struct_children:
  "struct_ok b s \<Longrightarrow> c < NODES div 2 \<Longrightarrow>
   left_child (nodes s c) = Some (2 * c + 1) \<and> right_child (nodes s c) = Some (2 * c + 2)"
  by (simp add: struct_ok_def struct_node_def)

lemma split_loop_refines:
  assumes "struct_ok b s" and "lists_ok s fl" and "ainv ((states s)(c := USED)) fl"
    and "c < NODES" and "l \<le> lvl_of c" and "k = lvl_of c - l"
    and "states s c \<noteq> USED"
  shows "\<exists>c' s' fl'. split_loop c l s = Some (c', s') \<and>
     a_split k c (states s, fl) = (c', (states s', fl')) \<and>
     struct_ok b s' \<and> lists_ok s' fl' \<and> ainv ((states s')(c' := USED)) fl' \<and>
     c' < NODES \<and> lvl_of c' = l \<and> lock s' = lock s \<and>
     (\<forall>i. states s' i = USED \<longleftrightarrow> states s i = USED) \<and> states s c' \<noteq> USED"
  using assms
proof (induction k arbitrary: c s fl)
  case 0
  then have "lvl (nodes s c) = l" using struct_lvl[of b s c] by simp
  then have "split_loop c l s = Some (c, s)" by (subst split_loop.simps) simp
  with 0 show ?case by simp
next
  case (Suc k)
  define lc where "lc = 2 * c + 1"
  define r where "r = 2 * c + 2"
  from Suc.prems have lv: "lvl (nodes s c) = lvl_of c" and gt: "l < lvl_of c"
    using struct_lvl[of b s c] by simp_all
  then have ci: "c < NODES div 2" using lvl_of_pos_iff[of c] Suc.prems(4) by simp
  have rl: "r < NODES" "lc < NODES" using ci children_lt_NODES by (simp_all add: r_def lc_def)
  have ne: "r \<noteq> c" "lc \<noteq> c" "lc \<noteq> r" by (simp_all add: r_def lc_def)
  define fl2 where "fl2 = fl(lvl_of r := r # fl (lvl_of r))"
  from split_step_inv[OF Suc.prems(3) ci]
  have nin: "r \<notin> set (fl (lvl_of r))"
    and inv': "ainv ((states s)(c := INNER, r := FREE, lc := USED)) fl2"
    by (simp_all add: r_def lc_def fl2_def)
  define s1 where "s1 = upd_node c (\<lambda>x. x\<lparr>state := INNER\<rparr>) s"
  have st1: "struct_ok b s1" and lo1: "lists_ok s1 fl" using Suc.prems by (simp_all add: s1_def)
  have ch1: "right_child (nodes s1 c) = Some r"
    using struct_children[OF st1 ci] by (simp add: r_def)
  from add_free_node_lists[OF st1 lo1 rl(1) nin]
  obtain s2 where a: "add_free_node (Some r) s1 = Some s2"
    and lo2: "lists_ok s2 fl2" and lk: "links_only s1 s2" unfolding fl2_def by blast
  have st2: "struct_ok b s2" using links_only_struct[OF lk st1] .
  have ch2: "right_child (nodes s2 c) = Some r"
    using struct_children[OF st2 ci] by (simp add: r_def)
  define s3 where "s3 = upd_node r (\<lambda>x. x\<lparr>state := FREE\<rparr>) s2"
  have st3: "struct_ok b s3" and lo3: "lists_ok s3 fl2" using st2 lo2 by (simp_all add: s3_def)
  have ch3: "left_child (nodes s3 c) = Some lc"
    using struct_children[OF st3 ci] by (simp add: lc_def)
  have ss3: "states s3 = (states s)(c := INNER, r := FREE)"
    using links_only_states[OF lk] by (simp add: s3_def s1_def)
  have inv3: "ainv ((states s3)(lc := USED)) fl2" using inv' ss3 by simp
  have ll: "lvl_of lc = lvl_of c - 1" using lvl_of_left[OF ci] by (simp add: lc_def)
  have kk: "l \<le> lvl_of lc" "k = lvl_of lc - l" using ll gt Suc.prems(6) by simp_all
  have vc: "states s lc = NONEXISTENT" "states s r = NONEXISTENT"
    using virtual_children[OF Suc.prems(3) ci] by (simp_all add: lc_def r_def)
  have nu3: "states s3 lc \<noteq> USED" using ss3 vc ne by simp
  from Suc.IH[OF st3 lo3 inv3 rl(2) kk nu3]
  obtain c' s' fl' where rr: "split_loop lc l s3 = Some (c', s')"
    and ab: "a_split k lc (states s3, fl2) = (c', (states s', fl'))"
    and rest: "struct_ok b s'" "lists_ok s' fl'" "ainv ((states s')(c' := USED)) fl'"
      "c' < NODES" "lvl_of c' = l" "lock s' = lock s3"
    and us: "\<forall>i. states s' i = USED \<longleftrightarrow> states s3 i = USED"
    and nu': "states s3 c' \<noteq> USED" by blast
  have us': "\<forall>i. states s' i = USED \<longleftrightarrow> states s i = USED"
    using us ss3 vc Suc.prems(7) by auto
  have nu'': "states s c' \<noteq> USED"
    using nu' ss3 vc Suc.prems(7) by (auto split: if_splits)
  have lk3: "lock s3 = lock s" using links_only_fields(10)[OF lk] by (simp add: s3_def s1_def)
  have "split_loop c l s = Some (c', s')"
    apply (subst split_loop.simps)
    apply (simp only: lv gt if_True Let_def s1_def[symmetric] ch1 a bind.bind_lunit ch2 deref_Some
        rl s3_def[symmetric] ch3 rr)
    done
  moreover have "a_split (Suc k) c (states s, fl) = (c', (states s', fl'))"
    using ab ss3 by (simp add: r_def lc_def fl2_def)
  moreover have "lock s' = lock s" using rest(6) lk3 by simp
  ultimately show ?case using rest(1-5) us' nu'' by blast
qed

lemma struct_fields:
  assumes "struct_ok b s" and "c < NODES"
  shows "id_node (nodes s c) = c" "neighbour (nodes s c) = Some (nb_of c)"
    "parent (nodes s c) = Some (parent_of c)" "memory (nodes s c) = mem_of b c"
    "lvl (nodes s c) = lvl_of c" "size_node (nodes s c) = 2 ^ lvl_of c"
  using assms by (simp_all add: struct_ok_def struct_node_def nb_of_def parent_of_def)

lemma parent_of_lt: "0 < c \<Longrightarrow> parent_of c < c"
  by (simp add: parent_of_def)

lemma coalesce_refines:
  assumes "struct_ok b s" and "lists_ok s fl" and "ainv ((states s)(c := USED)) fl"
    and "c < NODES"
  shows "\<exists>c' s' fl'. coalesce c s = Some (c', s') \<and>
     a_coalesce c (states s, fl) = (c', (states s', fl')) \<and>
     struct_ok b s' \<and> lists_ok s' fl' \<and> ainv ((states s')(c' := USED)) fl' \<and>
     c' < NODES \<and> (c' = 0 \<or> states s' (nb_of c') \<noteq> FREE) \<and> lock s' = lock s \<and>
     (c' \<noteq> c \<longrightarrow> states s c' = INNER) \<and>
     (\<forall>i. i \<noteq> c' \<longrightarrow> (states s' i = USED \<longleftrightarrow> states s i = USED \<and> i \<noteq> c))"
  using assms
proof (induction c arbitrary: s fl rule: less_induct)
  case (less c)
  note st = less.prems(1) and lo = less.prems(2) and inv = less.prems(3) and c = less.prems(4)
  define n where "n = nb_of c"
  define q where "q = parent_of c"
  have idc: "id_node (nodes s c) = c" and nbc: "neighbour (nodes s c) = Some n"
    using struct_fields[OF st c] by (simp_all add: n_def)
  have nl: "n < NODES" using nb_of_lt[OF c] by (simp add: n_def)
  show ?case
  proof (cases "c \<noteq> 0 \<and> states s n = FREE")
    case False
    then have stop: "c = 0 \<or> state (nodes s n) \<noteq> FREE" by (auto simp: states_def)
    have "coalesce c s = Some (c, s)"
      apply (subst coalesce.simps)
      using stop by (auto simp add: idc nbc nl)
    moreover have "a_coalesce c (states s, fl) = (c, (states s, fl))"
      using False by (subst a_coalesce.simps) (auto simp: n_def)
    moreover have "c = 0 \<or> states s (nb_of c) \<noteq> FREE" using False by (auto simp: n_def)
    ultimately show ?thesis using st lo inv c by blast
  next
    case True
    then have c0: "0 < c" and nf: "states s n = FREE" by simp_all
    from nb_parent_ex[OF c0] have ne: "n \<noteq> c" "q \<noteq> c" "q \<noteq> n"
      by (auto simp: n_def q_def)
    have ql: "q < NODES" using parent_of_inner[OF c0 c] by (simp add: q_def)
    define fl2 where "fl2 = fl(lvl_of n := remove1 n (fl (lvl_of n)))"
    from coalesce_step_inv[OF inv c0 c] nf
    have nin: "n \<in> set (fl (lvl_of n))"
      and inv': "ainv ((states s)(c := NONEXISTENT, n := NONEXISTENT, q := USED)) fl2"
      by (simp_all add: n_def q_def fl2_def)
    define s1 where "s1 = upd_node c (\<lambda>x. x\<lparr>state := NONEXISTENT\<rparr>) s"
    have st1: "struct_ok b s1" using st by (simp add: s1_def)
    have nb1: "neighbour (nodes s1 c) = Some n"
      using struct_fields[OF st1 c] by (simp add: n_def)
    define s2 where "s2 = upd_node n (\<lambda>x. x\<lparr>state := NONEXISTENT\<rparr>) s1"
    have st2: "struct_ok b s2" and lo2: "lists_ok s2 fl"
      using st1 lo by (simp_all add: s2_def s1_def)
    have nb2: "neighbour (nodes s2 c) = Some n"
      using struct_fields[OF st2 c] by (simp add: n_def)
    from unlink_lists[OF st2 lo2 nin]
    obtain s3 where u: "unlink n s2 = Some s3" and lo3: "lists_ok s3 fl2"
      and lk: "links_only s2 s3" unfolding fl2_def by blast
    have st3: "struct_ok b s3" using links_only_struct[OF lk st2] .
    have p3: "parent (nodes s3 c) = Some q"
      using struct_fields[OF st3 c] by (simp add: q_def)
    have ss3: "states s3 = (states s)(c := NONEXISTENT, n := NONEXISTENT)"
      using links_only_states[OF lk] by (simp add: s2_def s1_def)
    have inv3: "ainv ((states s3)(q := USED)) fl2" using inv' ss3 by simp
    have qc: "q < c" using parent_of_lt[OF c0] by (simp add: q_def)
    from less.IH[OF qc st3 lo3 inv3 ql]
    obtain c' s' fl' where rr: "coalesce q s3 = Some (c', s')"
      and ab: "a_coalesce q (states s3, fl2) = (c', (states s', fl'))"
      and rest: "struct_ok b s'" "lists_ok s' fl'" "ainv ((states s')(c' := USED)) fl'"
        "c' < NODES" "c' = 0 \<or> states s' (nb_of c') \<noteq> FREE" "lock s' = lock s3"
      and ci: "c' \<noteq> q \<longrightarrow> states s3 c' = INNER"
      and us: "\<forall>i. i \<noteq> c' \<longrightarrow> (states s' i = USED \<longleftrightarrow> states s3 i = USED \<and> i \<noteq> q)"
      by blast
    have qi: "states s q = INNER" using virtual_parent_inner[OF inv c0 c] by (simp add: q_def)
    have ci': "states s c' = INNER" using ci qi ss3 by (cases "c' = q") (auto split: if_splits)
    have us': "\<forall>i. i \<noteq> c' \<longrightarrow> (states s' i = USED \<longleftrightarrow> states s i = USED \<and> i \<noteq> c)"
      using us ss3 nf qi by auto
    have lk3: "lock s3 = lock s" using links_only_fields(10)[OF lk] by (simp add: s2_def s1_def)
    have sn: "state (nodes s n) = FREE" using nf by (simp add: states_def)
    have "coalesce c s = Some (c', s')"
      apply (subst coalesce.simps)
      apply (simp only: idc nbc deref_Some nl if_True bind.bind_lunit sn Let_def
          s1_def[symmetric] nb1 s2_def[symmetric] nb2 u p3 ql rr)
      using c0 apply simp
      done
    moreover have "a_coalesce c (states s, fl) = (c', (states s', fl'))"
      apply (subst a_coalesce.simps)
      using ab ss3 True by (simp add: n_def q_def fl2_def)
    moreover have "lock s' = lock s" using rest(6) lk3 by simp
    ultimately show ?thesis using rest(1-5) ci' us' by blast
  qed
qed

lemma anc_le: "anc a c \<Longrightarrow> a \<le> c"
  by (induction rule: anc.induct) auto

lemma anc_trans: "anc a p \<Longrightarrow> anc p i \<Longrightarrow> anc a i"
  by (induction rule: anc.induct) (auto intro: anc.intros)

lemma anc_parent: "0 < i \<Longrightarrow> anc (parent_of i) i"
proof -
  assume "0 < i"
  then obtain q where "parent_of i = q" "i = 2 * q + 1 \<or> i = 2 * q + 2"
    using nb_parent_ex[of i] by auto
  then show ?thesis using anc_left[of q i] anc_right[of q i] anc_refl[of i] by auto
qed

lemma anc_root: "anc 0 i"
proof (induction i rule: less_induct)
  case (less i)
  show ?case
  proof (cases "i = 0")
    case True
    then show ?thesis by (simp add: anc_refl)
  next
    case False
    then have "anc 0 (parent_of i)" using less[of "parent_of i"] parent_of_lt[of i] by simp
    then show ?thesis using anc_parent[of i] False anc_trans by blast
  qed
qed

lemma inner_if_child_lt: "2 * a + 1 < NODES \<Longrightarrow> a < NODES div 2"
  by (simp add: NODES_def PAGES_def)

lemma lvl_of_inner_Suc: "a < NODES div 2 \<Longrightarrow> lvl_of a = Suc (lvl_of (2 * a + 2))"
  using lvl_of_right[of a] lvl_of_pos_iff[of a] by simp

lemma lvl_of_children_eq: "lvl_of (2 * a + 1) = lvl_of (2 * a + 2)"
  by (simp add: lvl_of_def)

lemma PGSIZE_pos: "0 < PGSIZE" by (simp add: PGSIZE_def)

lemma block_left:
  "block b (2 * a + 1) = {mem_of b a ..< mem_of b a + 2 ^ lvl_of (2 * a + 2) * PGSIZE}"
  unfolding block_def mem_of_left lvl_of_children_eq by (rule refl)

lemma block_right:
  "block b (2 * a + 2) = {mem_of b a + 2 ^ lvl_of (2 * a + 2) * PGSIZE ..<
      mem_of b a + 2 ^ lvl_of (2 * a + 2) * PGSIZE + 2 ^ lvl_of (2 * a + 2) * PGSIZE}"
  unfolding block_def mem_of_right by (rule refl)

lemma block_parent:
  assumes "a < NODES div 2"
  shows "block b a = {mem_of b a ..<
      mem_of b a + 2 ^ lvl_of (2 * a + 2) * PGSIZE + 2 ^ lvl_of (2 * a + 2) * PGSIZE}"
proof -
  define l where "l = lvl_of (2 * a + 2)"
  have "lvl_of a = Suc l" using lvl_of_inner_Suc[OF assms] by (simp only: l_def)
  then have "2 ^ lvl_of a * PGSIZE = 2 ^ l * PGSIZE + 2 ^ l * PGSIZE" by simp
  then show ?thesis unfolding block_def l_def[symmetric] by (simp only: add.assoc)
qed

lemma block_children:
  assumes "a < NODES div 2"
  shows "block b (2 * a + 1) \<subseteq> block b a" "block b (2 * a + 2) \<subseteq> block b a"
    "block b (2 * a + 1) \<inter> block b (2 * a + 2) = {}"
  unfolding block_left block_right block_parent[OF assms] by auto

lemma anc_block: "anc a c \<Longrightarrow> c < NODES \<Longrightarrow> block b c \<subseteq> block b a"
proof (induction rule: anc.induct)
  case (anc_refl c)
  then show ?case by simp
next
  case (anc_left a c)
  then have "2 * a + 1 < NODES" using anc_le[of "2 * a + 1" c] by simp
  then have "a < NODES div 2" by (rule inner_if_child_lt)
  then show ?case using anc_left block_children(1)[of a b] by blast
next
  case (anc_right a c)
  then have "2 * a + 1 < NODES" using anc_le[of "2 * a + 2" c] by simp
  then have "a < NODES div 2" by (rule inner_if_child_lt)
  then show ?case using anc_right block_children(2)[of a b] by blast
qed

lemma mem_in_block: "mem_of b i \<in> block b i"
  by (simp add: block_def PGSIZE_pos)

lemma unrelated_disjoint:
  "anc a i \<Longrightarrow> anc a j \<Longrightarrow> i < NODES \<Longrightarrow> j < NODES \<Longrightarrow>
   anc i j \<or> anc j i \<or> block b i \<inter> block b j = {}"
proof (induction arbitrary: j rule: anc.induct)
  case (anc_refl c)
  then show ?case by simp
next
  case (anc_left a c)
  have ai: "a < NODES div 2"
    using anc_le[OF anc_left.hyps] anc_left.prems(2) inner_if_child_lt[of a] by simp
  from anc_left.prems(1) show ?case
  proof (cases rule: anc.cases)
    case anc_refl
    then show ?thesis using anc_left.hyps anc.anc_left by blast
  next
    case l: anc_left
    then show ?thesis using anc_left.IH anc_left.prems by blast
  next
    case r: anc_right
    have "block b c \<subseteq> block b (2 * a + 1)" using anc_block[OF anc_left.hyps anc_left.prems(2)] .
    moreover have "block b j \<subseteq> block b (2 * a + 2)" using anc_block[OF r anc_left.prems(3)] .
    ultimately show ?thesis using block_children(3)[OF ai, of b] by blast
  qed
next
  case (anc_right a c)
  have ai: "a < NODES div 2"
    using anc_le[OF anc_right.hyps] anc_right.prems(2) inner_if_child_lt[of a] by simp
  from anc_right.prems(1) show ?case
  proof (cases rule: anc.cases)
    case anc_refl
    then show ?thesis using anc_right.hyps anc.anc_right by blast
  next
    case r: anc_right
    then show ?thesis using anc_right.IH anc_right.prems by blast
  next
    case l: anc_left
    have "block b c \<subseteq> block b (2 * a + 2)" using anc_block[OF anc_right.hyps anc_right.prems(2)] .
    moreover have "block b j \<subseteq> block b (2 * a + 1)" using anc_block[OF l anc_right.prems(3)] .
    ultimately show ?thesis using block_children(3)[OF ai, of b] by blast
  qed
qed

lemma anc_inner:
  "anc a c \<Longrightarrow> tree_ok st \<Longrightarrow> c < NODES \<Longrightarrow> st c \<noteq> NONEXISTENT \<Longrightarrow> a \<noteq> c \<Longrightarrow> st a = INNER"
proof (induction rule: anc.induct)
  case (anc_refl c)
  then show ?case by simp
next
  case (anc_left a c)
  have ai: "a < NODES div 2"
    using anc_le[OF anc_left.hyps] anc_left.prems(2) inner_if_child_lt[of a] by simp
  have "st (2 * a + 1) \<noteq> NONEXISTENT"
    using anc_left by (cases "2 * a + 1 = c") auto
  then show ?case using tree_ok_children[OF anc_left.prems(1) ai] by blast
next
  case (anc_right a c)
  have ai: "a < NODES div 2"
    using anc_le[OF anc_right.hyps] anc_right.prems(2) inner_if_child_lt[of a] by simp
  have "st (2 * a + 2) \<noteq> NONEXISTENT"
    using anc_right by (cases "2 * a + 2 = c") auto
  then show ?case using tree_ok_children[OF anc_right.prems(1) ai] by blast
qed

lemma used_disjoint:
  assumes t: "tree_ok st" and i: "i < NODES" "st i = USED" and j: "j < NODES" "st j = USED"
    and ne: "i \<noteq> j"
  shows "block b i \<inter> block b j = {}"
proof -
  have "\<not> anc i j" using anc_inner[OF _ t j(1), of i] j(2) i(2) ne by auto
  moreover have "\<not> anc j i" using anc_inner[OF _ t i(1), of j] j(2) i(2) ne by auto
  ultimately show ?thesis using unrelated_disjoint[OF anc_root anc_root i(1) j(1)] by blast
qed

lemma descend_finds:
  "anc a c \<Longrightarrow> struct_ok b s \<Longrightarrow> tree_ok (states s) \<Longrightarrow> c < NODES \<Longrightarrow>
   states s c \<noteq> INNER \<Longrightarrow> states s c \<noteq> NONEXISTENT \<Longrightarrow>
   descend (mem_of b c) a s = Some c"
proof (induction rule: anc.induct)
  case (anc_refl c)
  then have "state (nodes s c) \<noteq> INNER" by (simp add: states_def)
  then show ?case by (subst descend.simps) simp
next
  case (anc_left a c)
  define l where "l = 2 * a + 1"
  define r where "r = 2 * a + 2"
  have al: "anc l c" using anc_left.hyps by (simp add: l_def)
  have lc: "l \<le> c" using anc_le[OF al] .
  have ai: "a < NODES div 2"
    using lc anc_left.prems(3) inner_if_child_lt[of a] by (simp add: l_def)
  have lr: "l < NODES" "r < NODES" using ai children_lt_NODES by (simp_all add: l_def r_def)
  have "anc a c" using anc.anc_left[OF anc_left.hyps] .
  from anc_inner[OF this anc_left.prems(2,3,5)] lc
  have ia: "state (nodes s a) = INNER" by (simp add: states_def l_def)
  have ch: "right_child (nodes s a) = Some r" "left_child (nodes s a) = Some l"
    using struct_children[OF anc_left.prems(1) ai] by (simp_all add: l_def r_def)
  have mr: "memory (nodes s r) = mem_of b r" using struct_fields(4)[OF anc_left.prems(1) lr(2)] .
  have "mem_of b c \<in> block b l" using anc_block[OF al anc_left.prems(3)] mem_in_block by blast
  then have gt: "mem_of b r > mem_of b c"
    unfolding l_def r_def block_left mem_of_right by simp
  have IH: "descend (mem_of b c) l s = Some c" using anc_left.IH anc_left.prems by (simp add: l_def)
  show ?case
    apply (subst descend.simps)
    apply (simp only: ia simp_thms if_True ch deref_Some lr bind.bind_lunit mr gt IH)
    done
next
  case (anc_right a c)
  define l where "l = 2 * a + 1"
  define r where "r = 2 * a + 2"
  have ar: "anc r c" using anc_right.hyps by (simp add: r_def)
  have rc: "r \<le> c" using anc_le[OF ar] .
  have ai: "a < NODES div 2"
    using rc anc_right.prems(3) inner_if_child_lt[of a] by (simp add: r_def)
  have lr: "l < NODES" "r < NODES" using ai children_lt_NODES by (simp_all add: l_def r_def)
  have "anc a c" using anc.anc_right[OF anc_right.hyps] .
  from anc_inner[OF this anc_right.prems(2,3,5)] rc
  have ia: "state (nodes s a) = INNER" by (simp add: states_def r_def)
  have ch: "right_child (nodes s a) = Some r" "left_child (nodes s a) = Some l"
    using struct_children[OF anc_right.prems(1) ai] by (simp_all add: l_def r_def)
  have mr: "memory (nodes s r) = mem_of b r" using struct_fields(4)[OF anc_right.prems(1) lr(2)] .
  have "mem_of b c \<in> block b r" using anc_block[OF ar anc_right.prems(3)] mem_in_block by blast
  then have ngt: "\<not> mem_of b r > mem_of b c"
    unfolding r_def block_right mem_of_right by simp
  have IH: "descend (mem_of b c) r s = Some c" using anc_right.IH anc_right.prems by (simp add: r_def)
  show ?case
    apply (subst descend.simps)
    apply (simp only: ia simp_thms if_True if_False ch deref_Some lr bind.bind_lunit mr ngt IH)
    done
qed

lemma find_split_Some:
  "find_split s l = Some sl \<Longrightarrow>
   l \<le> sl \<and> sl < DEPTH \<and> sizes s sl > 0 \<and> (\<forall>j. l \<le> j \<and> j < sl \<longrightarrow> \<not> sizes s j > 0)"
proof (induction s l rule: find_split.induct)
  case (1 s idx)
  show ?case
  proof (cases "idx < DEPTH \<and> \<not> sizes s idx > 0")
    case True
    then have "find_split s (idx + 1) = Some sl" using "1.prems" by (subst (asm) find_split.simps) simp
    from "1.IH"[OF _ _ this] True
    have "idx + 1 \<le> sl \<and> sl < DEPTH \<and> sizes s sl > 0 \<and>
        (\<forall>j. idx + 1 \<le> j \<and> j < sl \<longrightarrow> \<not> sizes s j > 0)" by simp
    moreover have "\<not> sizes s j > 0" if "idx \<le> j" "j < sl" for j
      using that True calculation by (cases "j = idx") auto
    ultimately show ?thesis by auto
  next
    case False
    then show ?thesis using "1.prems" by (subst (asm) find_split.simps) (auto split: if_splits)
  qed
qed

lemma find_split_None:
  "find_split s l = None \<Longrightarrow> (\<forall>j. l \<le> j \<and> j < DEPTH \<longrightarrow> \<not> sizes s j > 0)"
proof (induction s l rule: find_split.induct)
  case (1 s idx)
  show ?case
  proof (cases "idx < DEPTH")
    case True
    then have a: "\<not> sizes s idx > 0" and "find_split s (idx + 1) = None"
      using "1.prems" by (subst (asm) find_split.simps; simp split: if_splits)+
    from "1.IH"[OF True a this(2)] have r: "\<forall>j. idx + 1 \<le> j \<and> j < DEPTH \<longrightarrow> \<not> sizes s j > 0" .
    have "\<not> sizes s j > 0" if "idx \<le> j" "j < DEPTH" for j
      using that a r by (cases "j = idx") auto
    then show ?thesis by blast
  next
    case False
    then show ?thesis by simp
  qed
qed

lemma find_split_total: "\<exists>r. find_split s l = r"
  by simp

lemma log2_loop_aux:
  "j \<le> 9 \<Longrightarrow> n \<le> 512 \<Longrightarrow> m = 9 - j \<Longrightarrow>
   \<exists>l. j \<le> l \<and> l \<le> 9 \<and> log2_loop n (2 ^ j) j = Some (2 ^ l, l) \<and> n \<le> 2 ^ l \<and>
       (l = j \<or> 2 ^ (l - 1) < n)"
proof (induction m arbitrary: j)
  case 0
  then have j: "j = 9" by simp
  then have "\<not> (2::int) ^ j < n" using 0 by simp
  then have "log2_loop n (2 ^ j) j = Some (2 ^ j, j)" by (subst log2_loop.simps) simp
  then show ?case using j 0 by auto
next
  case (Suc m)
  show ?case
  proof (cases "(2::int) ^ j < n")
    case False
    then have "log2_loop n (2 ^ j) j = Some (2 ^ j, j)" by (subst log2_loop.simps) simp
    then show ?thesis using False Suc.prems by auto
  next
    case True
    have j9: "j < 9" using Suc.prems by simp
    have "j + 1 \<le> 9" "m = 9 - (j + 1)" using j9 Suc.prems by simp_all
    from Suc.IH[OF this(1) Suc.prems(2) this(2)]
    obtain l where l: "j + 1 \<le> l" "l \<le> 9" "log2_loop n (2 ^ (j + 1)) (j + 1) = Some (2 ^ l, l)"
      "n \<le> 2 ^ l" "l = j + 1 \<or> 2 ^ (l - 1) < n" by auto
    have "log2_loop n (2 ^ j) j = Some (2 ^ l, l)"
      using True l(3) by (subst log2_loop.simps) (simp add: mult.commute)
    moreover have "2 ^ (l - 1) < n" using l(5) True by auto
    ultimately show ?thesis using l by auto
  qed
qed

lemma log2_loop_result:
  assumes "0 < n" and "n \<le> 512"
  shows "\<exists>l. l \<le> 9 \<and> log2_loop n 1 0 = Some (2 ^ l, l) \<and> n \<le> 2 ^ l \<and>
    (\<forall>k. n = 2 ^ k \<longrightarrow> k = l)"
proof -
  from log2_loop_aux[of 0 n 9] assms
  obtain l where l: "l \<le> 9" "log2_loop n 1 0 = Some (2 ^ l, l)" "n \<le> 2 ^ l"
    "l = 0 \<or> 2 ^ (l - 1) < n" by auto
  have "k = l" if k: "n = 2 ^ k" for k
  proof -
    have "(2::int) ^ k \<le> 2 ^ l" using l(3) k by simp
    then have kl: "k \<le> l" by simp
    show ?thesis
    proof (cases "l = 0")
      case True
      then show ?thesis using kl by simp
    next
      case False
      then have "(2::int) ^ (l - 1) < 2 ^ k" using l(4) k by simp
      then have "l - 1 < k" by simp
      then show ?thesis using kl by simp
    qed
  qed
  then show ?thesis using l by blast
qed

lemma a_split_mem: "a_split k c a = (c', a') \<Longrightarrow> mem_of b c' = mem_of b c"
proof (induction k arbitrary: c a)
  case 0
  then show ?case by (cases a) simp
next
  case (Suc k)
  obtain st fl where a: "a = (st, fl)" by (cases a)
  from Suc.prems have "mem_of b c' = mem_of b (2 * c + 1)"
    unfolding a a_split.simps by (rule Suc.IH)
  then show ?case by (simp only: mem_of_left)
qed

lemma lists_ok_level:
  assumes "lists_ok s fl" and "l < DEPTH"
  shows "dll (nodes s) None (lists s l) (fl l)" "distinct (fl l)"
    "\<And>x. x \<in> set (fl l) \<Longrightarrow> lvl_of x = l" "sizes s l = int (length (fl l))"
  using assms unfolding lists_ok_def by blast+

lemma buddy_alloc_success:
  assumes st: "struct_ok b s" and lo: "lists_ok s fl" and inv: "ainv (states s) fl"
    and n: "0 < n" "n \<le> 512" and lg: "log2_loop n 1 0 = Some (n, l)"
    and fs: "find_split (acquire s) l = Some sl"
  shows "\<exists>c s' fl'. buddy_alloc n s = Some (mem_of b c, s') \<and>
     a_alloc l sl (states s, fl) = (c, (states s', fl')) \<and>
     fl sl \<noteq> [] \<and> lists s sl = Some (hd (fl sl)) \<and>
     struct_ok b s' \<and> lists_ok s' fl' \<and> ainv (states s') fl' \<and>
     c < NODES \<and> lvl_of c = l \<and> lock s' = lock s @ [Acquire, Release] \<and>
     (\<forall>i. states s' i = USED \<longleftrightarrow> states s i = USED \<or> i = c) \<and>
     states s c \<noteq> USED \<and> mem_of b c = mem_of b (hd (fl sl))"
proof -
  define s1 where "s1 = acquire s"
  have st1: "struct_ok b s1" and lo1: "lists_ok s1 fl" and ss1: "states s1 = states s"
    using st lo by (simp_all add: s1_def)
  from find_split_Some[OF fs] have sl: "l \<le> sl" "sl < DEPTH" "sizes s sl > 0" by simp_all
  note lv = lists_ok_level[OF lo1 sl(2)]
  have "sizes s1 sl > 0" using sl(3) by (simp add: s1_def)
  then have ne: "fl sl \<noteq> []" using lv(4) by auto
  then obtain X xs where f: "fl sl = X # xs" by (cases "fl sl") auto
  have hX: "hd (fl sl) = X" using f by simp
  have Xin: "X \<in> set (fl sl)" using f by simp
  have lX: "lvl_of X = sl" using lv(3)[OF Xin] .
  have Xl: "X < NODES" using lists_ok_lt[OF lo1 sl(2) Xin] .
  have hd1: "lists s1 sl = Some X" using dll_head[OF lv(1)] f by simp
  define fl1 where "fl1 = fl(sl := tl (fl sl))"
  have fl1: "fl(lvl_of X := remove1 X (fl (lvl_of X))) = fl1" using f lX by (simp add: fl1_def)
  from unlink_lists[OF st1 lo1, of X] Xin lX
  obtain s2 where u: "unlink X s1 = Some s2" and lo2: "lists_ok s2 fl1"
    and lk: "links_only s1 s2" unfolding fl1 by auto
  have st2: "struct_ok b s2" using links_only_struct[OF lk st1] .
  have ss2: "states s2 = states s" using links_only_states[OF lk] ss1 by simp
  have inv2: "ainv ((states s2)(X := USED)) fl1"
    using take_step_inv[OF inv sl(2) Xin] fl1 lX ss2 by simp
  have "states s X = FREE" using content_mem[of "states s" fl sl X] inv Xin sl(2)
    by (simp add: ainv_def)
  then have nu: "states s2 X \<noteq> USED" using ss2 by simp
  have lX': "l \<le> lvl_of X" using sl(1) lX by simp
  from split_loop_refines[OF st2 lo2 inv2 Xl lX' refl nu]
  obtain c s3 fl' where sp: "split_loop X l s2 = Some (c, s3)"
    and ab: "a_split (lvl_of X - l) X (states s2, fl1) = (c, (states s3, fl'))"
    and r: "struct_ok b s3" "lists_ok s3 fl'" "ainv ((states s3)(c := USED)) fl'"
      "c < NODES" "lvl_of c = l" "lock s3 = lock s2"
    and us: "\<forall>i. states s3 i = USED \<longleftrightarrow> states s2 i = USED"
    and nuc: "states s2 c \<noteq> USED" by blast
  define s4 where "s4 = upd_node c (\<lambda>x. x\<lparr>state := USED\<rparr>) s3"
  define s5 where "s5 = release s4"
  have st5: "struct_ok b s5" and lo5: "lists_ok s5 fl'"
    and ss5: "states s5 = (states s3)(c := USED)"
    using r by (simp_all add: s5_def s4_def)
  have inv5: "ainv (states s5) fl'" using r(3) ss5 by simp
  have m5: "memory (nodes s5 c) = mem_of b c" using struct_fields(4)[OF st5 r(4)] .
  have lk5: "lock s5 = lock s @ [Acquire, Release]"
    using r(6) links_only_fields(10)[OF lk] by (simp add: s5_def s4_def s1_def)
  have us5: "\<forall>i. states s5 i = USED \<longleftrightarrow> states s i = USED \<or> i = c"
    using us ss5 ss2 by auto
  have nn: "\<not> (n \<le> 0 \<or> n > 512)" using n by simp
  have fs1: "find_split s1 l = Some sl" using fs by (simp only: s1_def)
  have "buddy_alloc n s = Some (mem_of b c, s5)"
    unfolding buddy_alloc_def
    apply (simp only: nn if_False lg bind.bind_lunit prod.case simp_thms Let_def
        s1_def[symmetric] fs1 option.case hd1 deref_Some Xl if_True u sp)
    apply (simp only: s4_def[symmetric] s5_def[symmetric] m5)
    done
  moreover have "a_alloc l sl (states s, fl) = (c, (states s5, fl'))"
    using ab ss2 ss5 lX hX by (simp add: a_alloc_def fl1_def)
  moreover have "mem_of b c = mem_of b (hd (fl sl))" using a_split_mem[OF ab] hX by simp
  moreover have "lists s sl = Some (hd (fl sl))" using hd1 hX by (simp add: s1_def)
  moreover have "states s c \<noteq> USED" using nuc ss2 by simp
  ultimately show ?thesis using ne st5 lo5 inv5 r(4,5) lk5 us5 by blast
qed

lemma buddy_free_success:
  assumes st: "struct_ok b s" and lo: "lists_ok s fl" and inv: "ainv (states s) fl"
    and valid: "\<not> (pa = 0 \<or> pa mod PGSIZE \<noteq> 0 \<or> pa < e \<or> pa \<ge> phys)"
    and d: "descend pa 0 (acquire s) = Some c" and c: "c < NODES"
    and u: "states s c = USED" and m: "mem_of b c = pa"
  shows "\<exists>s' fl'. buddy_free e phys pa s = Some (Freed s') \<and>
     a_free c (states s, fl) = (states s', fl') \<and>
     struct_ok b s' \<and> lists_ok s' fl' \<and> ainv (states s') fl' \<and>
     lock s' = lock s @ [Acquire, Release] \<and>
     (\<forall>i. states s' i = USED \<longleftrightarrow> states s i = USED \<and> i \<noteq> c)"
proof -
  define s1 where "s1 = acquire s"
  have st1: "struct_ok b s1" and lo1: "lists_ok s1 fl" and ss1: "states s1 = states s"
    using st lo by (simp_all add: s1_def)
  have d1: "descend pa 0 s1 = Some c" using d by (simp only: s1_def)
  have chk: "\<not> (state (nodes s1 c) \<noteq> USED \<or> memory (nodes s1 c) \<noteq> pa)"
    using u m struct_fields(4)[OF st1 c] ss1 by (simp add: states_def fun_eq_iff)
  have idc: "id_node (nodes s1 c) = c" using struct_fields(1)[OF st1 c] .
  have "(states s1)(c := USED) = states s1" using u ss1 by (auto simp: fun_eq_iff)
  then have inv1: "ainv ((states s1)(c := USED)) fl" using inv ss1 by simp
  from coalesce_refines[OF st1 lo1 inv1 c]
  obtain c' s2 fl2 where co: "coalesce c s1 = Some (c', s2)"
    and ab: "a_coalesce c (states s1, fl) = (c', (states s2, fl2))"
    and r: "struct_ok b s2" "lists_ok s2 fl2" "ainv ((states s2)(c' := USED)) fl2"
      "c' < NODES" "c' = 0 \<or> states s2 (nb_of c') \<noteq> FREE" "lock s2 = lock s1"
    and ci: "c' \<noteq> c \<longrightarrow> states s1 c' = INNER"
    and us: "\<forall>i. i \<noteq> c' \<longrightarrow> (states s2 i = USED \<longleftrightarrow> states s1 i = USED \<and> i \<noteq> c)"
    by blast
  define fl3 where "fl3 = fl2(lvl_of c' := c' # fl2 (lvl_of c'))"
  from release_step_inv[OF r(3,4,5)]
  have nin: "c' \<notin> set (fl2 (lvl_of c'))" and inv3: "ainv ((states s2)(c' := FREE)) fl3"
    by (simp_all add: fl3_def)
  from add_free_node_lists[OF r(1,2,4) nin]
  obtain s3 where a: "add_free_node (Some c') s2 = Some s3" and lo3: "lists_ok s3 fl3"
    and lk: "links_only s2 s3" unfolding fl3_def by blast
  define s4 where "s4 = upd_node c' (\<lambda>x. x\<lparr>state := FREE\<rparr>) s3"
  define s5 where "s5 = release s4"
  have st5: "struct_ok b s5" and lo5: "lists_ok s5 fl3"
    using links_only_struct[OF lk r(1)] lo3 by (simp_all add: s5_def s4_def)
  have ss5: "states s5 = (states s2)(c' := FREE)"
    using links_only_states[OF lk] by (simp add: s5_def s4_def)
  have inv5: "ainv (states s5) fl3" using inv3 ss5 by simp
  have lk5: "lock s5 = lock s @ [Acquire, Release]"
    using r(6) links_only_fields(10)[OF lk] by (simp add: s5_def s4_def s1_def)
  have us5: "\<forall>i. states s5 i = USED \<longleftrightarrow> states s i = USED \<and> i \<noteq> c"
  proof
    fix i
    show "states s5 i = USED \<longleftrightarrow> states s i = USED \<and> i \<noteq> c"
    proof (cases "i = c'")
      case True
      then show ?thesis using ss5 ci ss1 by (cases "c' = c") auto
    next
      case False
      then show ?thesis using us ss5 ss1 by simp
    qed
  qed
  have af: "a_free c (states s, fl) = (states s5, fl3)"
    using ab ss1 ss5 by (simp add: a_free_def a_release_def fl3_def)
  have "buddy_free e phys pa s = Some (Freed s5)"
  proof (cases "c = 0")
    case True
    have id0: "id_node (nodes s1 c) = 0" using idc True by simp
    have "coalesce c s1 = Some (c, s1)"
      by (subst coalesce.simps) (simp only: id0 simp_thms if_False)
    then have e: "c' = c" "s2 = s1" using co by simp_all
    show ?thesis
      unfolding buddy_free_def
      apply (simp only: valid if_False Let_def s1_def[symmetric] d1 bind.bind_lunit chk idc)
      using True a e by (simp add: s5_def s4_def)
  next
    case False
    show ?thesis
      unfolding buddy_free_def
      apply (simp only: valid if_False Let_def s1_def[symmetric] d1 bind.bind_lunit chk idc)
      using False a co by (simp add: s5_def s4_def)
  qed
  then show ?thesis using af st5 lo5 inv5 lk5 us5 by blast
qed

lemma descend_lt_aux: "descend pa a s = Some c \<Longrightarrow> a < NODES \<longrightarrow> c < NODES"
proof (rule descend.raw_induct[where P = "\<lambda>pa a s c. a < NODES \<longrightarrow> c < NODES"])
  fix f pa a s c
  assume IH: "\<And>pa a s c. f pa a s = Some c \<Longrightarrow> a < NODES \<longrightarrow> c < NODES"
    and e: "(if state (nodes s a) = INNER
      then deref (right_child (nodes s a)) \<bind>
           (\<lambda>r. if pa < memory (nodes s r)
                then deref (left_child (nodes s a)) \<bind> (\<lambda>l. f pa l s)
                else f pa r s)
      else Some a) = Some c"
  show "a < NODES \<longrightarrow> c < NODES"
    using e IH by (auto simp: deref_eq_Some split: if_splits bind_splits)
qed

lemma descend_lt: "descend pa a s = Some c \<Longrightarrow> a < NODES \<Longrightarrow> c < NODES"
  using descend_lt_aux by blast

lemma child_node_struct:
  assumes i: "0 < i" "i < NODES" and p: "struct_node b ((i - 1) div 2) par"
  shows "struct_node b i (child_node i par)"
proof -
  define q where "q = (i - 1) div 2"
  have lp: "lvl_of q = Suc (lvl_of i)" using lvl_of_parent[OF i] by (simp only: q_def)
  from p have "struct_node b q par" by (simp only: q_def)
  then have f: "lvl par = Suc (lvl_of i)" "size_node par = 2 * 2 ^ lvl_of i"
    "memory par = mem_of b q"
    by (simp_all add: struct_node_def lp)
  have m: "mem_of b i = (if i mod 2 = 1 then mem_of b q else mem_of b q + 2 ^ lvl_of i * PGSIZE)"
    using i unfolding q_def by (subst mem_of.simps) simp
  have "parent (child_node i par) = Some ((i - 1) div 2)" by (simp add: child_node_def Let_def)
  then show ?thesis
    using i by (simp add: struct_node_def child_node_def Let_def f m)
qed

lemma init_nodes:
  assumes n0: "nodes s 0 = root_node e"
    and nj: "\<forall>j. 1 \<le> j \<and> j < NODES \<longrightarrow> nodes s j = child_node j (nodes s ((j - 1) div 2))"
  shows "i < NODES \<Longrightarrow> struct_node (PGROUNDUP e) i (nodes s i) \<and>
     state (nodes s i) = (if i = 0 then FREE else NONEXISTENT) \<and>
     prev (nodes s i) = None \<and> next_node (nodes s i) = None"
proof (induction i rule: less_induct)
  case (less i)
  show ?case
  proof (cases "i = 0")
    case True
    have "0 < NODES div 2" by (simp add: NODES_def PAGES_def)
    then show ?thesis using True n0
      by (simp add: root_node_def struct_node_def PAGES_pow)
  next
    case False
    let ?p = "(i - 1) div 2"
    have "?p < i" "?p < NODES" using False less.prems by simp_all
    from less.IH[OF this] have p: "struct_node (PGROUNDUP e) ?p (nodes s ?p)" by simp
    have e: "nodes s i = child_node i (nodes s ?p)" using nj False less.prems by simp
    have "struct_node (PGROUNDUP e) i (nodes s i)"
      unfolding e using child_node_struct[OF _ less.prems p] False by simp
    then show ?thesis using False by (simp add: e child_node_def Let_def)
  qed
qed

lemma buddy_init_inv:
  "\<exists>s. buddy_init e p = Some s \<and> struct_ok (PGROUNDUP e) s \<and> lists_ok s fl_init \<and>
     ainv (states s) fl_init \<and> used_ok (states s) \<and> lock s = [] \<and>
     (\<forall>i<NODES. states s i = (if i = 0 then FREE else NONEXISTENT))"
proof -
  from buddy_init_Some[of e p] obtain s where s: "buddy_init e p = Some s" and lk: "lock s = []"
    and ls: "\<And>l. l < DEPTH \<Longrightarrow> lists s l = (if l = DEPTH - 1 then Some 0 else None)"
    and sz: "\<And>l. l < DEPTH \<Longrightarrow> sizes s l = (if l = DEPTH - 1 then 1 else 0)"
    and n0: "nodes s 0 = root_node e"
    and nj: "\<forall>j. 1 \<le> j \<and> j < NODES \<longrightarrow> nodes s j = child_node j (nodes s ((j - 1) div 2))"
    by blast
  note nd = init_nodes[OF n0 nj]
  have st: "struct_ok (PGROUNDUP e) s" using nd by (simp add: struct_ok_def)
  have ss: "states s i = (if i = 0 then FREE else NONEXISTENT)" if "i < NODES" for i
    using nd[OF that] by (simp add: states_def)
  have lo: "lists_ok s fl_init"
    unfolding lists_ok_def
  proof (intro conjI allI impI)
    fix l assume l: "l < DEPTH"
    show "dll (nodes s) None (lists s l) (fl_init l)"
      using nd[of 0] by (simp add: fl_init_def ls[OF l] NODES_pos)
    show "distinct (fl_init l)" by (simp add: fl_init_def)
    show "\<forall>x\<in>set (fl_init l). lvl_of x = l" by (simp add: fl_init_def)
    show "sizes s l = int (length (fl_init l))" by (simp add: fl_init_def sz[OF l])
  next
    fix i assume "i < NODES" "i \<notin> set (fl_init (lvl_of i))"
    then show "prev (nodes s i) = None" "next_node (nodes s i) = None" using nd[of i] by simp_all
  qed
  have t: "tree_ok (states s)"
  proof (rule tree_okI)
    show "states s 0 \<noteq> NONEXISTENT" using ss[of 0] by (simp add: NODES_pos)
  next
    fix i assume "i < NODES div 2" "states s i = INNER"
    then show "states s (2 * i + 1) \<noteq> NONEXISTENT \<and> states s (2 * i + 2) \<noteq> NONEXISTENT \<and>
       (states s (2 * i + 1) \<noteq> FREE \<or> states s (2 * i + 2) \<noteq> FREE)"
      using ss[of i] by (simp split: if_splits)
  next
    fix i assume i: "i < NODES div 2"
    then have "2 * i + 2 < NODES" using children_lt_NODES by simp
    then show "states s (2 * i + 1) = NONEXISTENT \<and> states s (2 * i + 2) = NONEXISTENT"
      using ss[of "2 * i + 1"] ss[of "2 * i + 2"] by simp
  next
    fix i assume "i < NODES"
    then show "states s i \<noteq> INNER" using ss[of i] by (simp split: if_splits)
  qed
  have ct: "content (states s) fl_init"
  proof (rule contentI)
    fix l show "distinct (fl_init l)" by (simp add: fl_init_def)
  next
    fix l i assume "l < DEPTH"
    show "i \<in> set (fl_init l) \<longleftrightarrow> i < NODES \<and> states s i = FREE \<and> lvl_of i = l"
      using ss[of i] by (auto simp: fl_init_def NODES_pos split: if_splits)
  qed
  have u: "used_ok (states s)" using ss by (simp add: used_ok_def)
  show ?thesis using s st lo t ct u lk ss by (auto simp: ainv_def)
qed

lemma buddy_alloc_invalid: "n \<le> 0 \<or> n > 512 \<Longrightarrow> buddy_alloc n s = Some (0, s)"
  by (simp add: buddy_alloc_def)

lemma buddy_alloc_not_pow2:
  assumes "0 < n" and "n \<le> 512" and "\<forall>k. n \<noteq> 2 ^ k"
  shows "buddy_alloc n s = Some (0, s)"
proof -
  from log2_loop_result[OF assms(1,2)] obtain l where l: "log2_loop n 1 0 = Some (2 ^ l, l)"
    by blast
  have "n \<noteq> 2 ^ l" using assms(3) by blast
  then show ?thesis using assms(1,2) l by (simp add: buddy_alloc_def)
qed

lemma log2_loop_pow2:
  assumes "n = 2 ^ l" and "l \<le> 9"
  shows "log2_loop n 1 0 = Some (n, l)"
proof -
  have "(2::int) ^ l \<le> 2 ^ 9" using assms(2) by (intro power_increasing) simp_all
  then have n: "0 < n" "n \<le> 512" using assms by simp_all
  from log2_loop_result[OF n] obtain l' where l': "log2_loop n 1 0 = Some (2 ^ l', l')"
    "\<forall>k. n = 2 ^ k \<longrightarrow> k = l'" by blast
  then have "l = l'" using assms(1) by blast
  then show ?thesis using l' assms(1) by simp
qed

lemma pow2_range:
  assumes "(0::int) < n" and "n \<le> 512" and "n = 2 ^ k"
  shows "k \<le> 9"
proof -
  from log2_loop_result[OF assms(1,2)] obtain l where "l \<le> 9" "\<forall>k. n = 2 ^ k \<longrightarrow> k = l"
    by blast
  then show ?thesis using assms(3) by blast
qed

lemma buddy_alloc_oom:
  assumes "n = 2 ^ l" and "l \<le> 9" and "find_split (acquire s) l = None"
  shows "buddy_alloc n s = Some (0, release (acquire s))"
proof -
  have "(2::int) ^ l \<le> 2 ^ 9" using assms(2) by (intro power_increasing) simp_all
  then have n: "\<not> (n \<le> 0 \<or> n > 512)" using assms by simp
  show ?thesis
    unfolding buddy_alloc_def
    by (simp only: n if_False log2_loop_pow2[OF assms(1,2)] bind.bind_lunit prod.case
        simp_thms Let_def assms(3) option.case)
qed

lemma inv_state_release_acquire: "inv_state b (release (acquire s)) = inv_state b s"
  by (simp add: inv_state_def)

lemma out_ok_release_acquire: "out_ok b (release (acquire s)) out = out_ok b s out"
  by (simp add: out_ok_def)

lemma out_ok_Cons:
  "out_ok b s ((a, n) # out) \<longleftrightarrow>
     a \<notin> fst ` set out \<and> (\<exists>i<NODES. states s i = USED \<and> a = mem_of b i \<and> n = 2 ^ lvl_of i) \<and>
     out_ok b s out"
  by (auto simp: out_ok_def)

lemma out_ok_mono:
  assumes "out_ok b s out" and "\<And>i. i < NODES \<Longrightarrow> states s i = USED \<Longrightarrow> states s' i = USED"
  shows "out_ok b s' out"
  using assms unfolding out_ok_def by fastforce

lemma buddy_alloc_inv:
  assumes i: "inv_state b s" and o: "out_ok b s out" and r: "buddy_alloc n s = Some (a, s')"
  shows "inv_state b s' \<and> out_ok b s' (if a = 0 then out else (a, n) # out)"
proof -
  from i obtain fl where st: "struct_ok b s" and u: "used_ok (states s)"
    and lo: "lists_ok s fl" and inv: "ainv (states s) fl" by (auto simp: inv_state_def)
  consider (bad) "n \<le> 0 \<or> n > 512" | (np) "0 < n" "n \<le> 512" "\<forall>k. n \<noteq> 2 ^ k"
    | (p) l where "0 < n" "n \<le> 512" "n = 2 ^ l" by fastforce
  then show ?thesis
  proof cases
    case bad
    then show ?thesis using buddy_alloc_invalid[OF bad, of s] r i o by simp
  next
    case np
    then show ?thesis using buddy_alloc_not_pow2[OF np, of s] r i o by simp
  next
    case p
    have l9: "l \<le> 9" using pow2_range[OF p] .
    show ?thesis
    proof (cases "find_split (acquire s) l")
      case None
      from buddy_alloc_oom[OF p(3) l9 None] r have "a = 0" "s' = release (acquire s)" by simp_all
      then show ?thesis using i o by (simp add: inv_state_release_acquire out_ok_release_acquire)
    next
      case (Some sl)
      from buddy_alloc_success[OF st lo inv p(1,2) log2_loop_pow2[OF p(3) l9] Some]
      obtain c s'' fl' where e: "buddy_alloc n s = Some (mem_of b c, s'')"
        and f: "struct_ok b s''" "lists_ok s'' fl'" "ainv (states s'') fl'" "c < NODES"
          "lvl_of c = l"
        and us: "\<forall>i. states s'' i = USED \<longleftrightarrow> states s i = USED \<or> i = c"
        and nu: "states s c \<noteq> USED" by blast
      from e r have a: "a = mem_of b c" and s': "s' = s''" by simp_all
      have "used_ok (states s')" using u us l9 f(5) unfolding used_ok_def s' by auto
      then have 1: "inv_state b s'" using f unfolding inv_state_def s' by blast
      have 3: "out_ok b s' out" using out_ok_mono[OF o] us s' by simp
      have t': "tree_ok (states s')" using f(3) s' by (simp add: ainv_def)
      have fresh: "a \<notin> fst ` set out"
      proof
        assume "a \<in> fst ` set out"
        then obtain n' where "(a, n') \<in> set out" by auto
        then obtain i where ii: "i < NODES" "states s i = USED" "a = mem_of b i"
          using o unfolding out_ok_def by blast
        then have ne: "i \<noteq> c" using nu by auto
        have "states s' i = USED" "states s' c = USED" using ii us s' by simp_all
        from used_disjoint[OF t' ii(1) this(1) f(4) this(2) ne, of b]
        have "mem_of b i \<noteq> mem_of b c" using mem_in_block[of b i] mem_in_block[of b c] by auto
        then show False using ii(3) a by simp
      qed
      have "\<exists>i<NODES. states s' i = USED \<and> a = mem_of b i \<and> n = 2 ^ lvl_of i"
        using a f(4,5) us p(3) s' by auto
      then have 2: "out_ok b s' ((a, n) # out)" using fresh 3 by (simp add: out_ok_Cons)
      show ?thesis using 1 2 3 by simp
    qed
  qed
qed

lemma buddy_free_Freed:
  assumes "buddy_free e phys pa s = Some (Freed s')"
  shows "\<not> (pa = 0 \<or> pa mod PGSIZE \<noteq> 0 \<or> pa < e \<or> pa \<ge> phys) \<and>
    (\<exists>c. descend pa 0 (acquire s) = Some c \<and> state (nodes s c) = USED \<and> memory (nodes s c) = pa)"
  using assms unfolding buddy_free_def
  by (auto simp: Let_def split: if_splits bind_splits)

lemma buddy_free_inv:
  assumes i: "inv_state b s" and o: "out_ok b s out"
    and r: "buddy_free e phys pa s = Some (Freed s')"
  shows "inv_state b s' \<and> out_ok b s' (filter (\<lambda>(a, n). a \<noteq> pa) out)"
proof -
  from i obtain fl where st: "struct_ok b s" and u: "used_ok (states s)"
    and lo: "lists_ok s fl" and inv: "ainv (states s) fl" by (auto simp: inv_state_def)
  from buddy_free_Freed[OF r]
  have valid: "\<not> (pa = 0 \<or> pa mod PGSIZE \<noteq> 0 \<or> pa < e \<or> pa \<ge> phys)"
    and ex: "\<exists>c. descend pa 0 (acquire s) = Some c \<and> state (nodes s c) = USED \<and>
      memory (nodes s c) = pa" by (rule conjunct1, rule conjunct2)
  from ex obtain c where d: "descend pa 0 (acquire s) = Some c"
    and su: "state (nodes s c) = USED" and m: "memory (nodes s c) = pa" by blast
  have c: "c < NODES" using descend_lt[OF d NODES_pos] .
  have su': "states s c = USED" using su by (simp add: states_def)
  have m': "mem_of b c = pa" using struct_fields(4)[OF st c] m by simp
  from buddy_free_success[OF st lo inv valid d c su' m']
  obtain s'' fl' where e: "buddy_free e phys pa s = Some (Freed s'')"
    and f: "struct_ok b s''" "lists_ok s'' fl'" "ainv (states s'') fl'"
    and us: "\<forall>i. states s'' i = USED \<longleftrightarrow> states s i = USED \<and> i \<noteq> c" by blast
  from e r have s': "s' = s''" by simp
  have "used_ok (states s')" using u us unfolding used_ok_def s' by auto
  then have 1: "inv_state b s'" using f unfolding inv_state_def s' by blast
  have 2: "out_ok b s' (filter (\<lambda>(a, n). a \<noteq> pa) out)"
    unfolding out_ok_def
  proof (intro conjI ballI)
    show "distinct (map fst (filter (\<lambda>(a, n). a \<noteq> pa) out))"
      using o unfolding out_ok_def by (simp add: distinct_map_filter)
  next
    fix x assume x: "x \<in> set (filter (\<lambda>(a, n). a \<noteq> pa) out)"
    obtain a' n' where xe: "x = (a', n')" by (cases x)
    then have "(a', n') \<in> set out" "a' \<noteq> pa" using x by auto
    then obtain i where ii: "i < NODES" "states s i = USED" "a' = mem_of b i" "n' = 2 ^ lvl_of i"
      using o unfolding out_ok_def by blast
    then have "i \<noteq> c" using m' \<open>a' \<noteq> pa\<close> by auto
    then show "case x of (a, n) \<Rightarrow> \<exists>i<NODES. states s' i = USED \<and> a = mem_of b i \<and> n = 2 ^ lvl_of i"
      using ii us xe s' by auto
  qed
  show ?thesis using 1 2 by simp
qed

lemma reach_inv:
  "reach e phys s out \<Longrightarrow> inv_state (PGROUNDUP e) s \<and> out_ok (PGROUNDUP e) s out"
proof (induction rule: reach.induct)
  case (reach_init s0 s)
  then show ?case using buddy_init_inv[of e s0] by (auto simp: inv_state_def out_ok_def)
next
  case (reach_alloc s out n a s')
  then show ?case using buddy_alloc_inv by blast
next
  case (reach_free s out pa s')
  then show ?case using buddy_free_inv by blast
qed

lemma dll_unique: "dll ns p h xs \<Longrightarrow> dll ns p h ys \<Longrightarrow> xs = ys"
proof (induction xs arbitrary: p h ys)
  case Nil
  then show ?case by (cases ys) auto
next
  case (Cons x xs)
  then show ?case by (cases ys) auto
qed

lemma PGROUNDUP_ge: "e \<le> PGROUNDUP e"
proof -
  have "e + PGSIZE - 1 = (e + PGSIZE - 1) div PGSIZE * PGSIZE + (e + PGSIZE - 1) mod PGSIZE"
    by simp
  moreover have "(e + PGSIZE - 1) mod PGSIZE < PGSIZE" using PGSIZE_pos by simp
  ultimately show ?thesis unfolding PGROUNDUP_def by linarith
qed

lemma PGROUNDUP_aligned: "PGROUNDUP e mod PGSIZE = 0"
  by (simp add: PGROUNDUP_def)

lemma mem_of_aligned: "b mod PGSIZE = 0 \<Longrightarrow> mem_of b i mod PGSIZE = 0"
proof (induction i rule: less_induct)
  case (less i)
  show ?case
  proof (cases "i = 0")
    case True
    then show ?thesis using less.prems by simp
  next
    case False
    then have "mem_of b ((i - 1) div 2) mod PGSIZE = 0" using less by simp
    then show ?thesis using False by (subst mem_of.simps) auto
  qed
qed

lemma block_root: "block b 0 = {b ..< b + PAGES * PGSIZE}"
  by (simp add: block_def PAGES_pow)

lemma mem_of_range:
  assumes "i < NODES"
  shows "b \<le> mem_of b i" "mem_of b i + 2 ^ lvl_of i * PGSIZE \<le> b + PAGES * PGSIZE"
proof -
  have sub: "block b i \<subseteq> block b 0" using anc_block[OF anc_root assms] .
  have "mem_of b i \<in> block b 0" using sub mem_in_block by blast
  then show "b \<le> mem_of b i" by (simp add: block_root)
  define w where "w = 2 ^ lvl_of i * PGSIZE"
  have pos: "0 < w" using PGSIZE_pos by (simp add: w_def)
  have bl: "block b i = {mem_of b i ..< mem_of b i + w}" by (simp add: block_def w_def)
  have "mem_of b i + w - 1 \<in> block b i" unfolding bl using pos by auto
  then have "mem_of b i + w - 1 \<in> block b 0" using sub by blast
  then have "mem_of b i + w - 1 < b + PAGES * PGSIZE" by (simp add: block_root)
  then have "mem_of b i + w \<le> b + PAGES * PGSIZE" using pos by linarith
  then show "mem_of b i + 2 ^ lvl_of i * PGSIZE \<le> b + PAGES * PGSIZE" by (simp add: w_def)
qed

lemma a_split_frame:
  "a_split k c (st, fl) = (c', (st', fl')) \<Longrightarrow> k \<le> lvl_of c \<Longrightarrow> c < NODES \<Longrightarrow>
   lvl_of c \<le> j \<Longrightarrow> fl' j = fl j"
proof (induction k arbitrary: c st fl)
  case 0
  then show ?case by simp
next
  case (Suc k)
  then have ci: "c < NODES div 2" using lvl_of_pos_iff[of c] by simp
  define lc where "lc = 2 * c + 1"
  define r where "r = 2 * c + 2"
  have ll: "lvl_of lc = lvl_of c - 1" "lvl_of r = lvl_of c - 1"
    using lvl_of_left[OF ci] lvl_of_right[OF ci] by (simp_all add: lc_def r_def)
  have lcl: "lc < NODES" using ci children_lt_NODES by (simp add: lc_def)
  from Suc.prems(1) have e: "a_split k lc (st(c := INNER, r := FREE),
      fl(lvl_of r := r # fl (lvl_of r))) = (c', (st', fl'))"
    by (simp add: lc_def r_def)
  have "fl' j = (fl(lvl_of r := r # fl (lvl_of r))) j"
    using Suc.IH[OF e _ lcl] ll Suc.prems(2,4) by simp
  then show ?case using ll Suc.prems(2,4) by simp
qed

lemma a_split_first_push:
  assumes "a_split (Suc k) c (st, fl) = (c', (st', fl'))" and "Suc k \<le> lvl_of c" and "c < NODES"
  shows "fl' (lvl_of c - 1) = (2 * c + 2) # fl (lvl_of c - 1)"
proof -
  have ci: "c < NODES div 2" using lvl_of_pos_iff[of c] assms by simp
  define lc where "lc = 2 * c + 1"
  define r where "r = 2 * c + 2"
  have ll: "lvl_of lc = lvl_of c - 1" "lvl_of r = lvl_of c - 1"
    using lvl_of_left[OF ci] lvl_of_right[OF ci] by (simp_all add: lc_def r_def)
  have lcl: "lc < NODES" using ci children_lt_NODES by (simp add: lc_def)
  from assms(1) have e: "a_split k lc (st(c := INNER, r := FREE),
      fl(lvl_of r := r # fl (lvl_of r))) = (c', (st', fl'))"
    by (simp add: lc_def r_def)
  have "fl' (lvl_of c - 1) = (fl(lvl_of r := r # fl (lvl_of r))) (lvl_of c - 1)"
    using a_split_frame[OF e _ lcl, of "lvl_of c - 1"] ll assms(2) by simp
  then show ?thesis using ll by (simp add: r_def)
qed

lemma find_split_exists:
  assumes "l \<le> j" and "j < DEPTH" and "sizes s j > 0"
  shows "\<exists>sl. find_split s l = Some sl"
proof (cases "find_split s l")
  case None
  from find_split_None[OF None] assms show ?thesis by blast
next
  case (Some sl)
  then show ?thesis by blast
qed

lemma descend_total_aux:
  assumes st: "struct_ok b s" and t: "tree_ok (states s)"
  shows "lvl_of a = k \<Longrightarrow> a < NODES \<Longrightarrow> \<exists>c. descend pa a s = Some c"
proof (induction k arbitrary: a rule: less_induct)
  case (less k)
  show ?case
  proof (cases "state (nodes s a) = INNER")
    case False
    then have "descend pa a s = Some a" by (subst descend.simps) simp
    then show ?thesis by blast
  next
    case True
    then have "states s a = INNER" by (simp add: states_def)
    then have ai: "a < NODES div 2" using tree_ok_leaf[OF t less.prems(2)] by force
    define l where "l = 2 * a + 1"
    define r where "r = 2 * a + 2"
    have lr: "l < NODES" "r < NODES" using ai children_lt_NODES by (simp_all add: l_def r_def)
    have ch: "right_child (nodes s a) = Some r" "left_child (nodes s a) = Some l"
      using struct_children[OF st ai] by (simp_all add: l_def r_def)
    have lv: "lvl_of l < k" "lvl_of r < k"
      using lvl_of_left[OF ai] lvl_of_right[OF ai] lvl_of_pos_iff[OF less.prems(2)] ai less.prems(1)
      by (simp_all add: l_def r_def)
    from less.IH[OF lv(1) refl lr(1)] obtain c1 where c1: "descend pa l s = Some c1" by blast
    from less.IH[OF lv(2) refl lr(2)] obtain c2 where c2: "descend pa r s = Some c2" by blast
    have "descend pa a s = Some (if pa < memory (nodes s r) then c1 else c2)"
      apply (subst descend.simps)
      apply (simp only: True simp_thms if_True ch deref_Some lr bind.bind_lunit c1 c2)
      apply simp
      done
    then show ?thesis by blast
  qed
qed

lemma descend_total:
  "struct_ok b s \<Longrightarrow> tree_ok (states s) \<Longrightarrow> \<exists>c. descend pa 0 s = Some c"
  using descend_total_aux[OF _ _ refl NODES_pos] by blast

lemma nb_of_left [simp]: "nb_of (2 * c + 1) = 2 * c + 2"
  by (simp add: nb_of_def)

lemma eager:
  assumes t: "tree_ok st" and x: "0 < x" "x < NODES" and f: "st x = FREE"
  shows "st (nb_of x) \<noteq> FREE"
proof -
  from nb_parent_ex[OF x(1)] obtain q where q: "parent_of x = q"
    and cs: "(x = 2 * q + 1 \<and> nb_of x = 2 * q + 2) \<or> (x = 2 * q + 2 \<and> nb_of x = 2 * q + 1)"
    by blast
  have qi: "q < NODES div 2" using parent_of_inner[OF x] q by simp
  show ?thesis
  proof (cases "st q = INNER")
    case True
    from tree_ok_inner[OF t qi True] cs f show ?thesis by metis
  next
    case False
    from tree_ok_children[OF t qi False] cs f show ?thesis by (metis node_state.distinct(5))
  qed
qed




lemma buddy_alloc_nonnull:
  assumes st: "struct_ok b s" and lo: "lists_ok s fl" and inv: "ainv (states s) fl"
    and r: "buddy_alloc n s = Some (a, s')" and a: "a \<noteq> 0"
  shows "\<exists>l sl c fl'. l \<le> 9 \<and> n = 2 ^ l \<and> find_split (acquire s) l = Some sl \<and>
     a = mem_of b c \<and> a_alloc l sl (states s, fl) = (c, (states s', fl')) \<and>
     fl sl \<noteq> [] \<and> lists s sl = Some (hd (fl sl)) \<and>
     struct_ok b s' \<and> lists_ok s' fl' \<and> ainv (states s') fl' \<and>
     c < NODES \<and> lvl_of c = l \<and> lock s' = lock s @ [Acquire, Release] \<and>
     states s' c = USED \<and> mem_of b c = mem_of b (hd (fl sl))"
proof -
  consider (bad) "n \<le> 0 \<or> n > 512" | (np) "0 < n" "n \<le> 512" "\<forall>k. n \<noteq> 2 ^ k"
    | (p) l where "0 < n" "n \<le> 512" "n = 2 ^ l" by fastforce
  then show ?thesis
  proof cases
    case bad
    then show ?thesis using buddy_alloc_invalid[OF bad, of s] r a by simp
  next
    case np
    then show ?thesis using buddy_alloc_not_pow2[OF np, of s] r a by simp
  next
    case p
    have l9: "l \<le> 9" using pow2_range[OF p] .
    show ?thesis
    proof (cases "find_split (acquire s) l")
      case None
      from buddy_alloc_oom[OF p(3) l9 None] r a show ?thesis by simp
    next
      case (Some sl)
      from buddy_alloc_success[OF st lo inv p(1,2) log2_loop_pow2[OF p(3) l9] Some]
      obtain c s'' fl' where e: "buddy_alloc n s = Some (mem_of b c, s'')"
        and f: "a_alloc l sl (states s, fl) = (c, (states s'', fl'))"
          "fl sl \<noteq> []" "lists s sl = Some (hd (fl sl))"
          "struct_ok b s''" "lists_ok s'' fl'" "ainv (states s'') fl'" "c < NODES"
          "lvl_of c = l" "lock s'' = lock s @ [Acquire, Release]"
          "mem_of b c = mem_of b (hd (fl sl))"
        and us: "\<forall>i. states s'' i = USED \<longleftrightarrow> states s i = USED \<or> i = c" by blast
      from e r have "a = mem_of b c" "s' = s''" by simp_all
      moreover have "states s'' c = USED" using us by simp
      ultimately show ?thesis using l9 p(3) Some f by blast
    qed
  qed
qed

lemma reach_struct: "reach e phys s out \<Longrightarrow> struct_ok (PGROUNDUP e) s"
  using reach_inv by (simp add: inv_state_def)

lemma reach_lists:
  "reach e phys s out \<Longrightarrow> \<exists>fl. lists_ok s fl \<and> ainv (states s) fl"
  using reach_inv by (simp add: inv_state_def)

lemma reach_tree: "reach e phys s out \<Longrightarrow> tree_ok (states s)"
  using reach_lists by (auto simp: ainv_def)

lemma scenario:
  assumes e: "0 < e"
  shows "\<exists>s0 a1 s1 a2 s2. buddy_init e p = Some s0 \<and>
     buddy_alloc 1 s0 = Some (a1, s1) \<and> a1 \<noteq> 0 \<and>
     buddy_alloc 2 s1 = Some (a2, s2) \<and> a2 \<noteq> 0 \<and>
     reach e phys s0 [] \<and> reach e phys s1 [(a1, 1)] \<and> reach e phys s2 [(a2, 2), (a1, 1)]"
proof -
  define b where "b = PGROUNDUP e"
  have b: "0 < b" using e PGROUNDUP_ge[of e] by (simp add: b_def)
  from buddy_init_inv[of e p] obtain s0 where s0: "buddy_init e p = Some s0"
    and st0: "struct_ok b s0" and lo0: "lists_ok s0 fl_init" and inv0: "ainv (states s0) fl_init"
    unfolding b_def by blast
  have r0: "reach e phys s0 []" using s0 by (rule reach_init)
  have top: "DEPTH - 1 < DEPTH" by (simp add: DEPTH_def)
  have sz0: "sizes (acquire s0) (DEPTH - 1) > 0"
    using lists_ok_level(4)[OF lo0 top] by (simp add: fl_init_def)
  from find_split_exists[OF _ top sz0, of 0] obtain sl where fs: "find_split (acquire s0) 0 = Some sl"
    by auto
  have sl: "sl = DEPTH - 1"
  proof (rule ccontr)
    assume n: "sl \<noteq> DEPTH - 1"
    from find_split_Some[OF fs] have "sl < DEPTH" "sizes s0 sl > 0" by simp_all
    then show False using lists_ok_level(4)[OF lo0, of sl] n by (simp add: fl_init_def)
  qed
  have l1: "log2_loop 1 1 0 = Some (1, 0)" using log2_loop_pow2[of 1 0] by simp
  from buddy_alloc_success[OF st0 lo0 inv0 _ _ l1 fs]
  obtain c s1 fl1 where a1: "buddy_alloc 1 s0 = Some (mem_of b c, s1)"
    and ab: "a_alloc 0 sl (states s0, fl_init) = (c, (states s1, fl1))"
    and f1: "struct_ok b s1" "lists_ok s1 fl1" "ainv (states s1) fl1" "c < NODES" by auto
  have n1: "mem_of b c \<noteq> 0" using mem_of_range(1)[OF f1(4), of b] b by simp
  have r1: "reach e phys s1 [(mem_of b c, 1)]" using reach_alloc[OF r0 a1] n1 by simp
  obtain st' where sp: "a_split (Suc (DEPTH - 2)) 0 (states s0, fl_init(DEPTH - 1 := [])) =
      (c, (st', fl1))"
    using ab unfolding a_alloc_def sl by (auto simp: fl_init_def DEPTH_def split: prod.splits)
  have "fl1 (lvl_of 0 - 1) = (2 * 0 + 2) # (fl_init(DEPTH - 1 := [])) (lvl_of 0 - 1)"
    by (rule a_split_first_push[OF sp]) (simp_all add: DEPTH_def NODES_pos)
  then have "fl1 (DEPTH - 2) \<noteq> []" by (simp add: DEPTH_def)
  moreover have d2: "DEPTH - 2 < DEPTH" by (simp add: DEPTH_def)
  ultimately have "sizes (acquire s1) (DEPTH - 2) > 0"
    using lists_ok_level(4)[OF f1(2) d2] by simp
  from find_split_exists[OF _ d2 this, of 1] obtain sl2
    where fs2: "find_split (acquire s1) 1 = Some sl2" by (auto simp: DEPTH_def)
  have l2: "log2_loop 2 1 0 = Some (2, 1)" using log2_loop_pow2[of 2 1] by simp
  from buddy_alloc_success[OF f1(1,2,3) _ _ l2 fs2]
  obtain c2 s2 where a2: "buddy_alloc 2 s1 = Some (mem_of b c2, s2)" and c2: "c2 < NODES" by auto
  have n2: "mem_of b c2 \<noteq> 0" using mem_of_range(1)[OF c2, of b] b by simp
  have r2: "reach e phys s2 [(mem_of b c2, 2), (mem_of b c, 1)]"
    using reach_alloc[OF r1 a2] n2 by simp
  show ?thesis using s0 a1 n1 a2 n2 r0 r1 r2 by blast
qed

text \<open>
  Claim C7. In every state reached from \<open>buddy_init\<close> by calls of \<open>buddy_alloc\<close> and
  \<open>buddy_free\<close> that return, and for every level \<open>l\<close>, the list headed at \<open>lists[l]\<close> is a
  doubly linked list (the head's \<open>prev\<close> is null, every other element's \<open>prev\<close> is the element
  before it, the last \<open>next\<close> is null) without repetition; its elements are exactly the
  nodes of state FREE whose \<open>lvl\<close> field is \<open>l\<close>, and \<open>sizes[l]\<close> is its length.
\<close>

theorem free_list_consistency:
  assumes "reach e phys s out" and "l < DEPTH"
  shows "\<exists>xs. dll (nodes s) None (lists s l) xs \<and> distinct xs \<and>
    set xs = {i. i < NODES \<and> state (nodes s i) = FREE \<and> lvl (nodes s i) = l} \<and>
    sizes s l = int (length xs)"
proof -
  from reach_lists[OF assms(1)] obtain fl where lo: "lists_ok s fl" and inv: "ainv (states s) fl"
    by blast
  have st: "struct_ok (PGROUNDUP e) s" using reach_struct[OF assms(1)] .
  from inv have ct: "content (states s) fl" by (simp add: ainv_def)
  have "set (fl l) = {i. i < NODES \<and> state (nodes s i) = FREE \<and> lvl (nodes s i) = l}"
    using content_mem[OF ct assms(2)] struct_lvl[OF st] by (auto simp: states_def)
  then show ?thesis using lists_ok_level[OF lo assms(2)] by blast
qed

theorem free_list_consistency_witness:
  "\<exists>s a s' xs. buddy_init 2147623936 zero_metadata = Some s \<and> buddy_alloc 1 s = Some (a, s') \<and>
     dll (nodes s') None (lists s' 3) xs \<and> distinct xs \<and>
     set xs = {i. i < NODES \<and> state (nodes s' i) = FREE \<and> lvl (nodes s' i) = 3} \<and>
     sizes s' 3 = int (length xs)"
proof -
  from scenario[of 2147623936 zero_metadata 2281701376] obtain s a s'
    where "buddy_init 2147623936 zero_metadata = Some s" "buddy_alloc 1 s = Some (a, s')"
      "reach 2147623936 2281701376 s' [(a, 1)]" by auto
  moreover have "(3::nat) < DEPTH" by (simp add: DEPTH_def)
  ultimately show ?thesis using free_list_consistency[of 2147623936 2281701376 s' "[(a, 1)]" 3]
    by blast
qed

text \<open>
  Claim C9 (eager coalescing). In every reachable state no two nodes with the same
  \<open>parent\<close> pointer are both FREE. The root points to itself as its parent, so the pairs
  covered are the two children of a node, and the root with either of its children.
\<close>

theorem eager_coalescing:
  assumes r: "reach e phys s out" and i: "i < NODES" and j: "j < NODES" and ne: "i \<noteq> j"
    and p: "parent (nodes s i) = parent (nodes s j)"
  shows "\<not> (state (nodes s i) = FREE \<and> state (nodes s j) = FREE)"
proof
  assume f: "state (nodes s i) = FREE \<and> state (nodes s j) = FREE"
  have st: "struct_ok (PGROUNDUP e) s" using reach_struct[OF r] .
  have t: "tree_ok (states s)" using reach_tree[OF r] .
  have fi: "states s i = FREE" "states s j = FREE" using f by (simp_all add: states_def)
  have pp: "parent_of i = parent_of j" using p struct_fields(3)[OF st i] struct_fields(3)[OF st j]
    by simp
  have root: False if x: "x < NODES" "0 < x" "parent_of x = 0" "states s x = FREE"
    "states s 0 = FREE" for x
  proof -
    have "0 < NODES div 2" by (simp add: NODES_def PAGES_def)
    from tree_ok_children[OF t this, of ] x(5)
    have "states s (2 * 0 + 1) = NONEXISTENT \<and> states s (2 * 0 + 2) = NONEXISTENT" by simp
    then have "states s 1 = NONEXISTENT" "states s 2 = NONEXISTENT"
      by (simp_all add: numeral_2_eq_2)
    moreover have "x = 1 \<or> x = 2" using nb_parent_ex[OF x(2)] x(3) by auto
    ultimately show False using x(4) by auto
  qed
  show False
  proof (cases "i = 0 \<or> j = 0")
    case True
    then show ?thesis
    proof
      assume "i = 0"
      then show False using root[OF j] ne pp fi by (simp add: parent_of_def)
    next
      assume "j = 0"
      then show False using root[OF i] ne pp fi by (simp add: parent_of_def)
    qed
  next
    case False
    then have i0: "0 < i" and j0: "0 < j" by simp_all
    from nb_parent_ex[OF i0] obtain q where q: "parent_of i = q"
      and ci: "(i = 2 * q + 1 \<and> nb_of i = 2 * q + 2) \<or> (i = 2 * q + 2 \<and> nb_of i = 2 * q + 1)"
      by blast
    from nb_parent_ex[OF j0] pp q
    have cj: "j = 2 * q + 1 \<or> j = 2 * q + 2" by auto
    have "j = nb_of i" using ci cj ne by auto
    then show False using eager[OF t i0 i fi(1)] fi(2) by simp
  qed
qed

theorem eager_coalescing_witness:
  "\<exists>s a s'. buddy_init 2147623936 zero_metadata = Some s \<and> buddy_alloc 1 s = Some (a, s') \<and>
     parent (nodes s' 1) = parent (nodes s' 2) \<and>
     \<not> (state (nodes s' 1) = FREE \<and> state (nodes s' 2) = FREE)"
proof -
  from scenario[of 2147623936 zero_metadata 2281701376] obtain s a s'
    where s: "buddy_init 2147623936 zero_metadata = Some s" "buddy_alloc 1 s = Some (a, s')"
      and r: "reach 2147623936 2281701376 s' [(a, 1)]" by auto
  have n: "(1::nat) < NODES" "(2::nat) < NODES" by (simp_all add: NODES_def PAGES_def)
  have p: "parent (nodes s' 1) = parent (nodes s' 2)"
    using struct_fields(3)[OF reach_struct[OF r] n(1)] struct_fields(3)[OF reach_struct[OF r] n(2)]
    by (simp add: parent_of_def)
  from eager_coalescing[OF r n _ p] have "\<not> (state (nodes s' 1) = FREE \<and> state (nodes s' 2) = FREE)"
    by simp
  then show ?thesis using s p by blast
qed

text \<open>
  Claim C10. In every reachable state a node of state USED has level at most 9, since
  \<open>buddy_alloc\<close> rejects \<open>n > 512\<close>; the root, of level \<open>DEPTH - 1 = 14\<close>, is never USED, and the
  descent of \<open>buddy_free\<close> never ends in a node that passes the two checks and has \<open>id = 0\<close>:
  the branch that releases the root is never taken.
\<close>

theorem used_below_level_10:
  assumes r: "reach e phys s out"
  shows "(\<forall>i<NODES. state (nodes s i) = USED \<longrightarrow> lvl (nodes s i) \<le> 9) \<and>
    state (nodes s 0) \<noteq> USED \<and> lvl (nodes s 0) = 14 \<and>
    (\<forall>pa c. descend pa 0 (acquire s) = Some c \<and> state (nodes (acquire s) c) = USED \<and>
       memory (nodes (acquire s) c) = pa \<longrightarrow> id_node (nodes (acquire s) c) \<noteq> 0)"
proof -
  have st: "struct_ok (PGROUNDUP e) s" using reach_struct[OF r] .
  have u: "used_ok (states s)" using reach_inv[OF r] by (simp add: inv_state_def)
  have 1: "\<forall>i<NODES. state (nodes s i) = USED \<longrightarrow> lvl (nodes s i) \<le> 9"
    using u struct_lvl[OF st] unfolding used_ok_def states_def by simp
  have l0: "lvl (nodes s 0) = 14" using struct_lvl[OF st NODES_pos] by (simp add: DEPTH_def)
  have 2: "state (nodes s 0) \<noteq> USED" using 1 l0 NODES_pos by force
  have 3: "id_node (nodes (acquire s) c) \<noteq> 0"
    if "descend pa 0 (acquire s) = Some c \<and> state (nodes (acquire s) c) = USED \<and>
       memory (nodes (acquire s) c) = pa" for pa c
  proof -
    have c: "c < NODES" using descend_lt[OF _ NODES_pos] that by blast
    have "c \<noteq> 0"
    proof
      assume "c = 0"
      then have "state (nodes s 0) = USED" using that by simp
      then show False using 2 by simp
    qed
    then show ?thesis using struct_fields(1)[OF st c] by simp
  qed
  show ?thesis using 1 2 l0 3 by blast
qed

theorem used_below_level_10_witness:
  "\<exists>s a s' c. buddy_init 2147623936 zero_metadata = Some s \<and> buddy_alloc 1 s = Some (a, s') \<and>
     c < NODES \<and> descend a 0 (acquire s') = Some c \<and> state (nodes s' c) = USED \<and>
     memory (nodes s' c) = a \<and> lvl (nodes s' c) \<le> 9 \<and> id_node (nodes s' c) \<noteq> 0 \<and>
     state (nodes s' 0) \<noteq> USED \<and> lvl (nodes s' 0) = 14"
proof -
  from scenario[of 2147623936 zero_metadata 2281701376] obtain s a s'
    where s: "buddy_init 2147623936 zero_metadata = Some s" "buddy_alloc 1 s = Some (a, s')"
      and r: "reach 2147623936 2281701376 s' [(a, 1)]" by auto
  have st: "struct_ok (PGROUNDUP 2147623936) s'" using reach_struct[OF r] .
  from reach_inv[OF r] obtain c where c: "c < NODES" "states s' c = USED"
    "a = mem_of (PGROUNDUP 2147623936) c" by (auto simp: out_ok_def)
  have su: "state (nodes s' c) = USED" using c(2) by (simp add: states_def)
  have m: "memory (nodes s' c) = a" using struct_fields(4)[OF st c(1)] c(3) by simp
  have d: "descend a 0 (acquire s') = Some c"
    unfolding c(3) using descend_finds[OF anc_root, of "PGROUNDUP 2147623936" "acquire s'" c]
      st reach_tree[OF r] c by simp
  from used_below_level_10[OF r] c(1) su d m
  have "lvl (nodes s' c) \<le> 9" "id_node (nodes s' c) \<noteq> 0" "state (nodes s' 0) \<noteq> USED"
    "lvl (nodes s' 0) = 14" by auto
  then show ?thesis using s c(1) d su m by blast
qed

text \<open>
  Claim C1 (disjointness). The outstanding allocations of a reachable state are kept in the
  list \<open>out\<close> of \<open>reach\<close>: the address returned and the size requested, newest first. Any two of
  them, at different places of the list, cover disjoint ranges of bytes
  \<open>[a, a + n * PGSIZE)\<close>.
\<close>

theorem disjointness:
  assumes r: "reach e phys s out" and ij: "i < j" "j < length out"
    and o: "out ! i = (a1, n1)" "out ! j = (a2, n2)"
  shows "{a1 ..< a1 + nat n1 * PGSIZE} \<inter> {a2 ..< a2 + nat n2 * PGSIZE} = {}"
proof -
  define b where "b = PGROUNDUP e"
  from reach_inv[OF r] have ok: "out_ok b s out" by (simp add: b_def)
  have t: "tree_ok (states s)" using reach_tree[OF r] .
  have in1: "(a1, n1) \<in> set out" "(a2, n2) \<in> set out" using ij o by (metis nth_mem order.strict_trans)+
  from ok in1 obtain c1 c2 where c1: "c1 < NODES" "states s c1 = USED" "a1 = mem_of b c1"
      "n1 = 2 ^ lvl_of c1"
    and c2: "c2 < NODES" "states s c2 = USED" "a2 = mem_of b c2" "n2 = 2 ^ lvl_of c2"
    unfolding out_ok_def by blast
  have "distinct (map fst out)" using ok by (simp add: out_ok_def)
  moreover have "i < length (map fst out)" "j < length (map fst out)" using ij by simp_all
  ultimately have "map fst out ! i \<noteq> map fst out ! j"
    using ij(1) nth_eq_iff_index_eq[of "map fst out" i j] by simp
  then have "a1 \<noteq> a2" using o ij by simp
  then have ne: "c1 \<noteq> c2" using c1(3) c2(3) by auto
  have n: "nat n1 = 2 ^ lvl_of c1" "nat n2 = 2 ^ lvl_of c2"
    using c1(4) c2(4) by (simp_all add: nat_power_eq)
  from used_disjoint[OF t c1(1,2) c2(1,2) ne, of b] show ?thesis
    unfolding block_def c1(3) c2(3) n .
qed

theorem disjointness_witness:
  "\<exists>s0 a1 s1 a2 s2. buddy_init 2147623936 zero_metadata = Some s0 \<and>
     buddy_alloc 1 s0 = Some (a1, s1) \<and> a1 \<noteq> 0 \<and> buddy_alloc 2 s1 = Some (a2, s2) \<and> a2 \<noteq> 0 \<and>
     {a2 ..< a2 + nat 2 * PGSIZE} \<inter> {a1 ..< a1 + nat 1 * PGSIZE} = {}"
proof -
  from scenario[of 2147623936 zero_metadata 2281701376] obtain s0 a1 s1 a2 s2
    where s: "buddy_init 2147623936 zero_metadata = Some s0" "buddy_alloc 1 s0 = Some (a1, s1)" "a1 \<noteq> 0"
      "buddy_alloc 2 s1 = Some (a2, s2)" "a2 \<noteq> 0"
      and r: "reach 2147623936 2281701376 s2 [(a2, 2), (a1, 1)]" by auto
  from disjointness[OF r, of 0 1 a2 2 a1 1]
  have "{a2 ..< a2 + nat 2 * PGSIZE} \<inter> {a1 ..< a1 + nat 1 * PGSIZE} = {}" by simp
  then show ?thesis using s by blast
qed

text \<open>
  Claim C6 (what \<open>buddy_init\<close> leaves behind, whatever the state \<open>p\<close> it is run on: nothing
  of it is left in the lock, the list heads, the counts and the nodes). Node 0 is FREE, of level \<open>DEPTH - 1\<close> and size
  \<open>PAGES\<close>, starts at \<open>PGROUNDUP(end)\<close>, is its own parent and neighbour, and is the only
  element of the list of level \<open>DEPTH - 1\<close>, whose count is 1; the other lists are empty with
  count 0. Every node \<open>i \<ge> 1\<close> is NONEXISTENT, one level below its parent \<open>(i - 1) / 2\<close> and of
  half its size; an odd \<open>i\<close> (a left child) starts where the parent starts, an even \<open>i\<close> (a
  right child) its own size in pages further; its neighbour is \<open>i + 1\<close> for odd and \<open>i - 1\<close> for
  even \<open>i\<close>; it has children \<open>2i + 1\<close> and \<open>2i + 2\<close> exactly when \<open>2i + 2 < NODES\<close>, and null
  children otherwise.
\<close>

theorem buddy_init_postcondition:
  "\<exists>s. buddy_init end_addr p = Some s \<and> lock s = [] \<and>
     state (nodes s 0) = FREE \<and> lvl (nodes s 0) = DEPTH - 1 \<and> size_node (nodes s 0) = PAGES \<and>
     memory (nodes s 0) = PGROUNDUP end_addr \<and>
     parent (nodes s 0) = Some 0 \<and> neighbour (nodes s 0) = Some 0 \<and>
     dll (nodes s) None (lists s (DEPTH - 1)) [0] \<and> sizes s (DEPTH - 1) = 1 \<and>
     (\<forall>l<DEPTH. l \<noteq> DEPTH - 1 \<longrightarrow> lists s l = None \<and> sizes s l = 0) \<and>
     (\<forall>i. 1 \<le> i \<and> i < NODES \<longrightarrow>
        state (nodes s i) = NONEXISTENT \<and> id_node (nodes s i) = i \<and>
        parent (nodes s i) = Some ((i - 1) div 2) \<and>
        lvl (nodes s i) + 1 = lvl (nodes s ((i - 1) div 2)) \<and>
        2 * size_node (nodes s i) = size_node (nodes s ((i - 1) div 2)) \<and>
        memory (nodes s i) =
          (if i mod 2 = 1 then memory (nodes s ((i - 1) div 2))
           else memory (nodes s ((i - 1) div 2)) + size_node (nodes s i) * PGSIZE) \<and>
        neighbour (nodes s i) = Some (if i mod 2 = 1 then i + 1 else i - 1) \<and>
        left_child (nodes s i) = (if 2 * i + 2 < NODES then Some (2 * i + 1) else None) \<and>
        right_child (nodes s i) = (if 2 * i + 2 < NODES then Some (2 * i + 2) else None))"
proof -
  define b where "b = PGROUNDUP end_addr"
  from buddy_init_Some[of end_addr p] obtain s where s: "buddy_init end_addr p = Some s"
    and lk: "lock s = []"
    and ls: "\<And>l. l < DEPTH \<Longrightarrow> lists s l = (if l = DEPTH - 1 then Some 0 else None)"
    and sz: "\<And>l. l < DEPTH \<Longrightarrow> sizes s l = (if l = DEPTH - 1 then 1 else 0)"
    and n0: "nodes s 0 = root_node end_addr"
    and nj: "\<forall>j. 1 \<le> j \<and> j < NODES \<longrightarrow> nodes s j = child_node j (nodes s ((j - 1) div 2))"
    by blast
  note nd = init_nodes[OF n0 nj, folded b_def]
  have root: "state (nodes s 0) = FREE" "lvl (nodes s 0) = DEPTH - 1"
    "size_node (nodes s 0) = PAGES" "memory (nodes s 0) = PGROUNDUP end_addr"
    "parent (nodes s 0) = Some 0" "neighbour (nodes s 0) = Some 0"
    by (simp_all add: n0 root_node_def)
  have top: "DEPTH - 1 < DEPTH" by (simp add: DEPTH_def)
  have hd: "lists s (DEPTH - 1) = Some 0" using ls[OF top] by (simp only: simp_thms if_True)
  have d: "dll (nodes s) None (lists s (DEPTH - 1)) [0]"
    unfolding hd using nd[OF NODES_pos] by (simp add: NODES_pos)
  have s1: "sizes s (DEPTH - 1) = 1" using sz[OF top] by (simp only: simp_thms if_True)
  have lv: "\<forall>l<DEPTH. l \<noteq> DEPTH - 1 \<longrightarrow> lists s l = None \<and> sizes s l = 0"
    by (simp add: ls sz)
  have ch: "state (nodes s i) = NONEXISTENT \<and> id_node (nodes s i) = i \<and>
        parent (nodes s i) = Some ((i - 1) div 2) \<and>
        lvl (nodes s i) + 1 = lvl (nodes s ((i - 1) div 2)) \<and>
        2 * size_node (nodes s i) = size_node (nodes s ((i - 1) div 2)) \<and>
        memory (nodes s i) =
          (if i mod 2 = 1 then memory (nodes s ((i - 1) div 2))
           else memory (nodes s ((i - 1) div 2)) + size_node (nodes s i) * PGSIZE) \<and>
        neighbour (nodes s i) = Some (if i mod 2 = 1 then i + 1 else i - 1) \<and>
        left_child (nodes s i) = (if 2 * i + 2 < NODES then Some (2 * i + 1) else None) \<and>
        right_child (nodes s i) = (if 2 * i + 2 < NODES then Some (2 * i + 2) else None)"
    if i: "1 \<le> i \<and> i < NODES" for i
  proof -
    define q where "q = (i - 1) div 2"
    have i0: "0 < i" "i < NODES" using i by simp_all
    have ql: "q < NODES" using i0 by (simp add: q_def)
    have lq: "lvl_of q = Suc (lvl_of i)" using lvl_of_parent[OF i0] by (simp only: q_def)
    from nd[OF i0(2)] i0 have ni: "struct_node b i (nodes s i)" "state (nodes s i) = NONEXISTENT"
      by simp_all
    from nd[OF ql] have nq: "struct_node b q (nodes s q)" by simp
    have m: "mem_of b i = (if i mod 2 = 1 then mem_of b q else mem_of b q + 2 ^ lvl_of i * PGSIZE)"
      using i0 unfolding q_def by (subst mem_of.simps) simp
    have c: "i < NODES div 2 \<longleftrightarrow> 2 * i + 2 < NODES" by (rule children_lt_NODES)
    have fq: "lvl (nodes s q) = Suc (lvl_of i)" "size_node (nodes s q) = 2 * 2 ^ lvl_of i"
      "memory (nodes s q) = mem_of b q"
      using nq by (simp_all add: struct_node_def lq)
    have fi: "id_node (nodes s i) = i" "lvl (nodes s i) = lvl_of i"
      "size_node (nodes s i) = 2 ^ lvl_of i" "parent (nodes s i) = Some q"
      "neighbour (nodes s i) = Some (if i mod 2 = 1 then i + 1 else i - 1)"
      "left_child (nodes s i) = (if 2 * i + 2 < NODES then Some (2 * i + 1) else None)"
      "right_child (nodes s i) = (if 2 * i + 2 < NODES then Some (2 * i + 2) else None)"
      "memory (nodes s i) = mem_of b i"
      using ni(1) i0 by (simp_all add: struct_node_def c q_def)
    show ?thesis
      unfolding q_def[symmetric]
      by (simp only: fq fi ni(2) m) simp
  qed
  show ?thesis using s lk root d s1 lv ch by (intro exI[of _ s]) simp
qed

theorem buddy_init_postcondition_witness:
  "\<exists>s. buddy_init 2147621564 stale_metadata = Some s \<and> lock s = [] \<and>
     state (nodes s 0) = FREE \<and> lvl (nodes s 0) = 14 \<and> size_node (nodes s 0) = 16384 \<and>
     memory (nodes s 0) = 2147622912 \<and> dll (nodes s) None (lists s 14) [0] \<and> sizes s 14 = 1 \<and>
     lists s 3 = None \<and> sizes s 3 = 0 \<and>
     state (nodes s 6) = NONEXISTENT \<and> parent (nodes s 6) = Some 2 \<and>
     lvl (nodes s 6) + 1 = lvl (nodes s 2) \<and> 2 * size_node (nodes s 6) = size_node (nodes s 2) \<and>
     memory (nodes s 6) = memory (nodes s 2) + size_node (nodes s 6) * 4096 \<and>
     neighbour (nodes s 6) = Some 5 \<and> left_child (nodes s 6) = Some 13 \<and>
     right_child (nodes s 6) = Some 14 \<and>
     memory (nodes s 16383) = memory (nodes s 8191) \<and> neighbour (nodes s 16383) = Some 16384 \<and>
     left_child (nodes s 16383) = None \<and> right_child (nodes s 16383) = None"
proof -
  from buddy_init_postcondition[of 2147621564 stale_metadata] obtain s
    where s: "buddy_init 2147621564 stale_metadata = Some s" "lock s = []"
      and r: "state (nodes s 0) = FREE" "lvl (nodes s 0) = DEPTH - 1"
        "size_node (nodes s 0) = PAGES" "memory (nodes s 0) = PGROUNDUP 2147621564"
        "dll (nodes s) None (lists s (DEPTH - 1)) [0]" "sizes s (DEPTH - 1) = 1"
      and l: "\<forall>l<DEPTH. l \<noteq> DEPTH - 1 \<longrightarrow> lists s l = None \<and> sizes s l = 0"
      and c: "\<forall>i. 1 \<le> i \<and> i < NODES \<longrightarrow>
        state (nodes s i) = NONEXISTENT \<and> id_node (nodes s i) = i \<and>
        parent (nodes s i) = Some ((i - 1) div 2) \<and>
        lvl (nodes s i) + 1 = lvl (nodes s ((i - 1) div 2)) \<and>
        2 * size_node (nodes s i) = size_node (nodes s ((i - 1) div 2)) \<and>
        memory (nodes s i) =
          (if i mod 2 = 1 then memory (nodes s ((i - 1) div 2))
           else memory (nodes s ((i - 1) div 2)) + size_node (nodes s i) * PGSIZE) \<and>
        neighbour (nodes s i) = Some (if i mod 2 = 1 then i + 1 else i - 1) \<and>
        left_child (nodes s i) = (if 2 * i + 2 < NODES then Some (2 * i + 1) else None) \<and>
        right_child (nodes s i) = (if 2 * i + 2 < NODES then Some (2 * i + 2) else None)"
    by blast
  have 1: "state (nodes s 0) = FREE \<and> lvl (nodes s 0) = 14 \<and> size_node (nodes s 0) = 16384 \<and>
     memory (nodes s 0) = 2147622912 \<and> dll (nodes s) None (lists s 14) [0] \<and> sizes s 14 = 1"
    using r by (simp add: DEPTH_def PAGES_def PGROUNDUP_def PGSIZE_def)
  have 2: "lists s 3 = None \<and> sizes s 3 = 0" using l[rule_format, of 3] by (simp add: DEPTH_def)
  have 3: "state (nodes s 6) = NONEXISTENT \<and> parent (nodes s 6) = Some 2 \<and>
     lvl (nodes s 6) + 1 = lvl (nodes s 2) \<and> 2 * size_node (nodes s 6) = size_node (nodes s 2) \<and>
     memory (nodes s 6) = memory (nodes s 2) + size_node (nodes s 6) * 4096 \<and>
     neighbour (nodes s 6) = Some 5 \<and> left_child (nodes s 6) = Some 13 \<and>
     right_child (nodes s 6) = Some 14"
    using c[rule_format, of 6] by (simp add: NODES_def PAGES_def PGSIZE_def)
  have 4: "memory (nodes s 16383) = memory (nodes s 8191) \<and>
     neighbour (nodes s 16383) = Some 16384 \<and>
     left_child (nodes s 16383) = None \<and> right_child (nodes s 16383) = None"
    using c[rule_format, of 16383] by (simp add: NODES_def PAGES_def PGSIZE_def)
  show ?thesis using s 1 2 3 4 by blast
qed

lemma outstanding_address:
  assumes r: "reach e phys s out" and o: "(a, n) \<in> set out"
  shows "\<exists>c<NODES. states s c = USED \<and> a = mem_of (PGROUNDUP e) c \<and> n = 2 ^ lvl_of c \<and>
     a mod PGSIZE = 0 \<and> e \<le> a \<and> a < PGROUNDUP e + PAGES * PGSIZE"
proof -
  define b where "b = PGROUNDUP e"
  have "out_ok b s out" using reach_inv[OF r] by (simp add: b_def)
  then have "\<forall>x \<in> set out. case x of (a, n) \<Rightarrow>
      \<exists>i<NODES. states s i = USED \<and> a = mem_of b i \<and> n = 2 ^ lvl_of i"
    unfolding out_ok_def by (rule conjunct2)
  from bspec[OF this o] obtain c where c: "c < NODES" and u: "states s c = USED"
    and am: "a = mem_of b c" and nl: "n = 2 ^ lvl_of c" by (simp only: prod.case) blast
  have "mem_of b c mod PGSIZE = 0"
    unfolding b_def by (rule mem_of_aligned[OF PGROUNDUP_aligned])
  then have al: "a mod PGSIZE = 0" by (simp only: am)
  have "e \<le> b" unfolding b_def by (rule PGROUNDUP_ge)
  also have "b \<le> mem_of b c" by (rule mem_of_range(1)[OF c])
  finally have ge: "e \<le> a" by (simp only: am)
  define w :: nat where "w = 2 ^ lvl_of c * PGSIZE"
  have "0 < w" using PGSIZE_pos by (simp add: w_def)
  moreover have "mem_of b c + w \<le> b + PAGES * PGSIZE"
    unfolding w_def by (rule mem_of_range(2)[OF c])
  ultimately have "mem_of b c < b + PAGES * PGSIZE" by linarith
  then have lt: "a < PGROUNDUP e + PAGES * PGSIZE" by (simp only: am b_def)
  have "c < NODES \<and> states s c = USED \<and> a = mem_of (PGROUNDUP e) c \<and> n = 2 ^ lvl_of c \<and>
     a mod PGSIZE = 0 \<and> e \<le> a \<and> a < PGROUNDUP e + PAGES * PGSIZE"
    using c u am[unfolded b_def] nl al ge lt by (intro conjI)
  then show ?thesis by (rule exI)
qed

text \<open>
  Claim C5. \<open>buddy_free\<close> panics exactly when the address is null, not page-aligned, below
  \<open>end\<close> or not below \<open>PHYSTOP\<close>, or when the node its descent ends in is not USED or does not
  start at the address. The state handed to \<open>panic\<close> has the nodes, the list heads and the
  counts of the state the call started from. In a reachable state the call always returns or
  panics.
\<close>

theorem free_panics_atomically:
  assumes r: "reach e phys s out"
  shows "\<exists>res. buddy_free e phys pa s = Some res \<and>
     ((\<exists>s'. res = Panic s') \<longleftrightarrow>
        pa = 0 \<or> pa mod PGSIZE \<noteq> 0 \<or> pa < e \<or> pa \<ge> phys \<or>
        (\<exists>c. descend pa 0 (acquire s) = Some c \<and>
           (state (nodes s c) \<noteq> USED \<or> memory (nodes s c) \<noteq> pa))) \<and>
     (\<forall>s'. res = Panic s' \<longrightarrow> nodes s' = nodes s \<and> lists s' = lists s \<and> sizes s' = sizes s)"
proof (cases "pa = 0 \<or> pa mod PGSIZE \<noteq> 0 \<or> pa < e \<or> pa \<ge> phys")
  case True
  then have "buddy_free e phys pa s = Some (Panic s)" by (simp add: buddy_free_def)
  then show ?thesis using True by auto
next
  case False
  define b where "b = PGROUNDUP e"
  have st: "struct_ok b s" using reach_struct[OF r] by (simp add: b_def)
  from reach_lists[OF r] obtain fl where lo: "lists_ok s fl" and inv: "ainv (states s) fl" by blast
  have t: "tree_ok (states s)" using inv by (simp add: ainv_def)
  from descend_total[of b "acquire s" pa] st t obtain c
    where d: "descend pa 0 (acquire s) = Some c" by auto
  have c: "c < NODES" using descend_lt[OF d NODES_pos] .
  show ?thesis
  proof (cases "state (nodes s c) \<noteq> USED \<or> memory (nodes s c) \<noteq> pa")
    case bad: True
    have "buddy_free e phys pa s = Some (Panic (acquire s))"
      unfolding buddy_free_def using False bad by (simp add: Let_def d)
    then show ?thesis using bad d by auto
  next
    case good: False
    then have u: "states s c = USED" and m: "mem_of b c = pa"
      using struct_fields(4)[OF st c] by (simp_all add: states_def)
    from buddy_free_success[OF st lo inv False d c u m]
    obtain s' where "buddy_free e phys pa s = Some (Freed s')" by blast
    then show ?thesis using False good d by auto
  qed
qed

theorem free_panics_atomically_witness:
  "\<exists>s s'. buddy_init 2147623936 zero_metadata = Some s \<and>
     buddy_free 2147623936 2281701376 0 s = Some (Panic s) \<and>
     descend 2147627008 0 (acquire s) = Some 0 \<and> state (nodes s 0) \<noteq> USED \<and>
     buddy_free 2147623936 2281701376 2147627008 s = Some (Panic s') \<and>
     nodes s' = nodes s \<and> lists s' = lists s \<and> sizes s' = sizes s"
proof -
  from buddy_init_inv[of 2147623936 zero_metadata] obtain s
    where s: "buddy_init 2147623936 zero_metadata = Some s"
    and ss: "\<forall>i<NODES. states s i = (if i = 0 then FREE else NONEXISTENT)" by blast
  have r: "reach 2147623936 2281701376 s []" using s by (rule reach_init)
  have f: "state (nodes s 0) = FREE" using ss NODES_pos by (simp add: states_def)
  have d: "descend 2147627008 0 (acquire s) = Some 0"
    by (subst descend.simps) (simp add: f)
  from free_panics_atomically[OF r, of 0]
  have 1: "buddy_free 2147623936 2281701376 0 s = Some (Panic s)"
    by (auto simp: buddy_free_def)
  from free_panics_atomically[OF r, of 2147627008] d f
  obtain s' where "buddy_free 2147623936 2281701376 2147627008 s = Some (Panic s')"
    "nodes s' = nodes s \<and> lists s' = lists s \<and> sizes s' = sizes s" by auto
  then show ?thesis using s 1 d f by auto
qed

text \<open>
  Claim C4, as the specification states it, fails on the code: \<open>buddy_alloc(1024)\<close> returns
  null right after \<open>buddy_init\<close>, although 1024 is a positive power of two, not above
  \<open>PAGES / 2 = 8192\<close>, and the list of level 14 is not empty.
\<close>

theorem alloc_null_iff_counterexample:
  "fst (the (buddy_alloc 1024 (the (buddy_init 2147623936 zero_metadata)))) = 0 \<and>
   \<not> alloc_fails_spec 1024 (the (buddy_init 2147623936 zero_metadata))"
proof -
  from buddy_init_Some[of 2147623936 zero_metadata] obtain s
    where s: "buddy_init 2147623936 zero_metadata = Some s"
      and sz: "\<And>l. l < DEPTH \<Longrightarrow> sizes s l = (if l = DEPTH - 1 then 1 else 0)" by blast
  have 1: "buddy_alloc 1024 s = Some (0, s)" by (rule buddy_alloc_invalid) simp
  have k: "k = 10" if "(1024::int) = 2 ^ k" for k
  proof -
    have e: "((2::int) ^ k = 2 ^ 10) = (k = 10)" by (rule power_inject_exp) simp
    have "(2::int) ^ 10 = 1024" by simp
    with that have "(2::int) ^ k = 2 ^ 10" by (simp only:)
    then show ?thesis by (simp only: e)
  qed
  have p14: "sizes s 14 > 0" using sz[of 14] by (simp add: DEPTH_def)
  have 2: "\<not> (\<forall>j. k \<le> j \<and> j < DEPTH \<longrightarrow> sizes s j \<le> 0)" if "(1024::int) = 2 ^ k" for k
  proof
    assume a: "\<forall>j. k \<le> j \<and> j < DEPTH \<longrightarrow> sizes s j \<le> 0"
    have "k \<le> 14 \<and> (14::nat) < DEPTH" using k[OF that] by (simp add: DEPTH_def)
    then have "sizes s 14 \<le> 0" using a by blast
    then show False using p14 by simp
  qed
  have 3: "\<not> (1024::int) \<le> 0" "\<not> (1024::int) > int (PAGES div 2)" by (simp_all add: PAGES_def)
  have 4: "\<not> (\<forall>k. (1024::int) \<noteq> 2 ^ k)"
  proof
    assume "\<forall>k. (1024::int) \<noteq> 2 ^ k"
    then have "(1024::int) \<noteq> 2 ^ 10" by blast
    then show False by simp
  qed
  have "\<not> alloc_fails_spec 1024 s"
    unfolding alloc_fails_spec_def using 2 3 4 by blast
  then show ?thesis using s 1 by simp
qed

text \<open>
  Claim C4, amended: the cap is 512. In a reachable state, with the arena not starting at
  address 0, \<open>buddy_alloc(n)\<close> returns, and returns null exactly when \<open>n \<le> 0\<close>, or \<open>n > 512\<close>,
  or \<open>n\<close> is not a power of two, or no level from \<open>log2(n)\<close> to \<open>DEPTH - 1\<close> has a positive
  count. When it returns null, the nodes, the list heads and the counts are unchanged; when it
  does so because of \<open>n\<close>, the whole state is, the lock included: it was never acquired.
\<close>

theorem alloc_null_iff:
  assumes r: "reach e phys s out" and e: "0 < e"
  shows "\<exists>a s'. buddy_alloc n s = Some (a, s') \<and>
     (a = 0 \<longleftrightarrow> alloc_fails n s) \<and>
     (a = 0 \<longrightarrow> nodes s' = nodes s \<and> lists s' = lists s \<and> sizes s' = sizes s) \<and>
     (n \<le> 0 \<or> n > 512 \<or> (\<forall>k. n \<noteq> 2 ^ k) \<longrightarrow> s' = s)"
proof -
  define b where "b = PGROUNDUP e"
  have b: "0 < b" using e PGROUNDUP_ge[of e] by (simp add: b_def)
  have st: "struct_ok b s" using reach_struct[OF r] by (simp add: b_def)
  from reach_lists[OF r] obtain fl where lo: "lists_ok s fl" and inv: "ainv (states s) fl" by blast
  consider (bad) "n \<le> 0 \<or> n > 512" | (np) "0 < n" "n \<le> 512" "\<forall>k. n \<noteq> 2 ^ k"
    | (p) l where "0 < n" "n \<le> 512" "n = 2 ^ l" by fastforce
  then show ?thesis
  proof cases
    case bad
    then show ?thesis using buddy_alloc_invalid[OF bad, of s] by (auto simp: alloc_fails_def)
  next
    case np
    then show ?thesis using buddy_alloc_not_pow2[OF np, of s] by (auto simp: alloc_fails_def)
  next
    case p
    have l9: "l \<le> 9" using pow2_range[OF p] .
    have uniq: "k = l" if "n = 2 ^ k" for k
      using that p(3) power_inject_exp[of "2::int" k l] by simp
    have good: "\<not> (n \<le> 0 \<or> n > 512 \<or> (\<forall>k. n \<noteq> 2 ^ k))" using p by auto
    show ?thesis
    proof (cases "find_split (acquire s) l")
      case None
      from find_split_None[OF None] have "\<forall>j. l \<le> j \<and> j < DEPTH \<longrightarrow> sizes s j \<le> 0"
        by (simp add: not_less)
      then have "alloc_fails n s" unfolding alloc_fails_def using p(3) by blast
      then show ?thesis using buddy_alloc_oom[OF p(3) l9 None] good by auto
    next
      case (Some sl)
      from buddy_alloc_success[OF st lo inv p(1,2) log2_loop_pow2[OF p(3) l9] Some]
      obtain c s' where a: "buddy_alloc n s = Some (mem_of b c, s')" and c: "c < NODES" by blast
      have nz: "mem_of b c \<noteq> 0" using mem_of_range(1)[OF c, of b] b by simp
      from find_split_Some[OF Some] have sl: "l \<le> sl" "sl < DEPTH" "sizes s sl > 0" by simp_all
      have "\<not> alloc_fails n s"
        unfolding alloc_fails_def using good sl uniq by (auto simp: not_le)
      then show ?thesis using a nz good by auto
    qed
  qed
qed

theorem alloc_null_iff_witness:
  "\<exists>s. buddy_init 2147623936 zero_metadata = Some s \<and> alloc_fails 3 s \<and> buddy_alloc 3 s = Some (0, s) \<and>
     alloc_fails 1024 s \<and> buddy_alloc 1024 s = Some (0, s)"
proof -
  from buddy_init_inv[of 2147623936 zero_metadata] obtain s
    where s: "buddy_init 2147623936 zero_metadata = Some s" by blast
  have r: "reach 2147623936 2281701376 s []" using s by (rule reach_init)
  have n3: "(3::int) \<noteq> 2 ^ k" for k
  proof (cases k)
    case 0
    then show ?thesis by simp
  next
    case (Suc m)
    have "even ((2::int) ^ Suc m)" by simp
    moreover have "odd (3::int)" by simp
    ultimately show ?thesis using Suc by metis
  qed
  then have f3: "alloc_fails 3 s" by (simp add: alloc_fails_def)
  have f4: "alloc_fails 1024 s" by (simp add: alloc_fails_def)
  from alloc_null_iff[OF r, of 3] obtain a3 s3 where "buddy_alloc 3 s = Some (a3, s3)"
    "a3 = 0 \<longleftrightarrow> alloc_fails 3 s" "3 \<le> (0::int) \<or> (3::int) > 512 \<or> (\<forall>k. (3::int) \<noteq> 2 ^ k) \<longrightarrow> s3 = s"
    by auto
  then have 3: "buddy_alloc 3 s = Some (0, s)" using f3 n3 by simp
  from alloc_null_iff[OF r, of 1024] obtain a4 s4 where "buddy_alloc 1024 s = Some (a4, s4)"
    "a4 = 0 \<longleftrightarrow> alloc_fails 1024 s"
    "1024 \<le> (0::int) \<or> (1024::int) > 512 \<or> (\<forall>k. (1024::int) \<noteq> 2 ^ k) \<longrightarrow> s4 = s"
    by auto
  then have 4: "buddy_alloc 1024 s = Some (0, s)" using f4 by simp
  show ?thesis using s f3 3 f4 4 by blast
qed

lemma out_nonnull: "reach e phys s out \<Longrightarrow> (a, n) \<in> set out \<Longrightarrow> a \<noteq> 0"
proof (induction arbitrary: a n rule: reach.induct)
  case (reach_init s)
  then show ?case by simp
next
  case (reach_alloc s out m a' s')
  show ?case
  proof (cases "a' = 0")
    case True
    then show ?thesis using reach_alloc.prems reach_alloc.IH by simp
  next
    case False
    then have "(a, n) = (a', m) \<or> (a, n) \<in> set out" using reach_alloc.prems by simp
    then show ?thesis using False reach_alloc.IH by blast
  qed
next
  case (reach_free s out pa s')
  then have "(a, n) \<in> set out" by simp
  then show ?case by (rule reach_free.IH)
qed

lemma descend_refines_aux:
  assumes st: "struct_ok b s" and t: "tree_ok (states s)"
  shows "lvl_of a = k \<Longrightarrow> a < NODES \<Longrightarrow> descend pa a s = Some (a_descend b (states s) pa a)"
proof (induction k arbitrary: a rule: less_induct)
  case (less k)
  show ?case
  proof (cases "state (nodes s a) = INNER")
    case False
    then have "descend pa a s = Some a" by (subst descend.simps) simp
    moreover have "a_descend b (states s) pa a = a"
      using False by (subst a_descend.simps) (simp add: states_def)
    ultimately show ?thesis by simp
  next
    case True
    then have sa: "states s a = INNER" by (simp add: states_def)
    then have ai: "a < NODES div 2" using tree_ok_leaf[OF t less.prems(2)] by force
    define l where "l = 2 * a + 1"
    define r where "r = 2 * a + 2"
    have lr: "l < NODES" "r < NODES" using ai children_lt_NODES by (simp_all add: l_def r_def)
    have ch: "right_child (nodes s a) = Some r" "left_child (nodes s a) = Some l"
      using struct_children[OF st ai] by (simp_all add: l_def r_def)
    have lv: "lvl_of l < k" "lvl_of r < k"
      using lvl_of_left[OF ai] lvl_of_right[OF ai] lvl_of_pos_iff[OF less.prems(2)] ai less.prems(1)
      by (simp_all add: l_def r_def)
    have mr: "memory (nodes s r) = mem_of b r" using struct_fields(4)[OF st lr(2)] .
    note c1 = less.IH[OF lv(1) refl lr(1)]
    note c2 = less.IH[OF lv(2) refl lr(2)]
    have "descend pa a s =
        Some (if pa < mem_of b r then a_descend b (states s) pa l else a_descend b (states s) pa r)"
      apply (subst descend.simps)
      apply (simp only: True simp_thms if_True ch deref_Some lr bind.bind_lunit c1 c2 mr)
      apply simp
      done
    moreover have "a_descend b (states s) pa a =
        (if pa < mem_of b r then a_descend b (states s) pa l else a_descend b (states s) pa r)"
      apply (subst a_descend.simps)
      apply (simp only: ai sa simp_thms if_True l_def r_def)
      done
    ultimately show ?thesis by simp
  qed
qed

lemma descend_refines:
  "struct_ok b s \<Longrightarrow> tree_ok (states s) \<Longrightarrow>
   descend pa 0 s = Some (a_descend b (states s) pa 0)"
  using descend_refines_aux[OF _ _ refl NODES_pos] by blast

lemma outstanding_below:
  assumes r: "reach e phys s out" and o: "(a, n) \<in> set out"
    and ph: "PGROUNDUP e + PAGES * PGSIZE \<le> phys"
  shows "a < phys"
proof -
  from outstanding_address[OF r o] obtain c where cc: "c < NODES \<and> states s c = USED \<and>
     a = mem_of (PGROUNDUP e) c \<and> n = 2 ^ lvl_of c \<and>
     a mod PGSIZE = 0 \<and> e \<le> a \<and> a < PGROUNDUP e + PAGES * PGSIZE"
    by (erule exE)
  then have "a < PGROUNDUP e + PAGES * PGSIZE" by (elim conjE)
  then show ?thesis using ph by (rule less_le_trans)
qed


text \<open>
  Claim C2. A call of \<open>buddy_alloc n\<close> in a reachable state that returns a non-null address
  \<open>a\<close> has done this: with \<open>n = 2 ^ l\<close>, the level \<open>sl\<close> is the least level from \<open>l\<close> on with a
  positive count; the head \<open>X\<close> of its list is taken out (the list of the level is the tail of
  the old one, the links of \<open>X\<close> are null, the count is one less); the state after the call is
  the one the splitting walk \<open>a_alloc\<close> of the specification leaves (\<open>sl - l\<close> times: the node
  becomes INNER, its right child FREE and the new head of the list of its level, the walk goes
  on in the left child; the node reached becomes USED); that node \<open>c\<close> has level \<open>l\<close>, and the
  address returned is its \<open>memory\<close>, the \<open>memory\<close> of \<open>X\<close>.
\<close>

theorem alloc_success_algorithm:
  assumes r: "reach e phys s out" and al: "buddy_alloc n s = Some (a, s')" and nz: "a \<noteq> 0"
  shows "\<exists>l sl X c fl fl'.
     n = 2 ^ l \<and> l \<le> sl \<and> sl < DEPTH \<and> 0 < sizes s sl \<and>
     (\<forall>j. l \<le> j \<and> j < sl \<longrightarrow> sizes s j \<le> 0) \<and>
     lists_ok s fl \<and> lists_ok s' fl' \<and>
     lists s sl = Some X \<and> fl sl \<noteq> [] \<and> X = hd (fl sl) \<and> lvl (nodes s X) = sl \<and>
     a_alloc l sl (states s, fl) = (c, (states s', fl')) \<and>
     fl' sl = tl (fl sl) \<and>
     prev (nodes s' X) = None \<and> next_node (nodes s' X) = None \<and>
     sizes s' sl = sizes s sl - 1 \<and>
     lvl (nodes s' c) = l \<and> state (nodes s' c) = USED \<and>
     a = memory (nodes s' c) \<and> memory (nodes s' c) = memory (nodes s X)"
proof -
  define b where "b = PGROUNDUP e"
  have st: "struct_ok b s" using reach_struct[OF r] by (simp add: b_def)
  from reach_lists[OF r] obtain fl where lo: "lists_ok s fl" and inv: "ainv (states s) fl" by blast
  from buddy_alloc_nonnull[OF st lo inv al nz] obtain l sl c fl'
    where n: "n = 2 ^ l" and fs: "find_split (acquire s) l = Some sl"
      and am: "a = mem_of b c" and ab: "a_alloc l sl (states s, fl) = (c, (states s', fl'))"
      and ne: "fl sl \<noteq> []" and hd: "lists s sl = Some (hd (fl sl))"
      and st': "struct_ok b s'" and lo': "lists_ok s' fl'" and c: "c < NODES"
      and lc: "lvl_of c = l" and u: "states s' c = USED"
      and mm: "mem_of b c = mem_of b (hd (fl sl))" by blast
  from find_split_Some[OF fs] have sl: "l \<le> sl" "sl < DEPTH" "0 < sizes s sl"
    and least: "\<forall>j. l \<le> j \<and> j < sl \<longrightarrow> sizes s j \<le> 0" by (simp_all add: not_less)
  define X where "X = hd (fl sl)"
  have Xin: "X \<in> set (fl sl)" using ne by (simp add: X_def)
  have ct: "content (states s) fl" using inv by (simp add: ainv_def)
  have X: "X < NODES" "lvl_of X = sl" using content_mem[OF ct sl(2), of X] Xin by simp_all
  define fl0 where "fl0 = fl(sl := tl (fl sl))"
  obtain c0 st1 fl1 where sp: "a_split (sl - l) X (states s, fl0) = (c0, (st1, fl1))"
    by (metis prod_cases3)
  have "a_alloc l sl (states s, fl) = (c0, (st1(c0 := USED), fl1))"
    unfolding a_alloc_def using sp by (simp add: X_def fl0_def)
  then have f1: "fl' = fl1" using ab by simp
  have "fl1 sl = fl0 sl" by (rule a_split_frame[OF sp]) (simp_all add: X)
  then have tl: "fl' sl = tl (fl sl)" by (simp add: f1 fl0_def)
  have d: "distinct (fl sl)" using content_distinct[OF ct sl(2)] .
  have "fl sl = X # tl (fl sl)" using ne by (simp add: X_def)
  then have "X \<notin> set (tl (fl sl))" using d by (metis distinct.simps(2))
  then have "X \<notin> set (fl' (lvl_of X))" by (simp add: X tl)
  then have links: "prev (nodes s' X) = None \<and> next_node (nodes s' X) = None"
    using lo' X(1) unfolding lists_ok_def by blast
  define k where "k = length (tl (fl sl))"
  have "fl sl = X # tl (fl sl)" using ne by (simp add: X_def)
  then have "length (fl sl) = Suc (length (tl (fl sl)))" by (metis length_Cons)
  then have k1: "sizes s sl = int (Suc k)"
    using lists_ok_level(4)[OF lo sl(2)] by (simp only: k_def)
  have k2: "sizes s' sl = int k" using lists_ok_level(4)[OF lo' sl(2)] by (simp only: tl k_def)
  have cnt: "sizes s' sl = sizes s sl - 1" unfolding k1 k2 by simp
  have lX: "lvl (nodes s X) = sl" using struct_fields(5)[OF st X(1)] X(2) by simp
  have lC: "lvl (nodes s' c) = l" using struct_fields(5)[OF st' c] lc by simp
  have uC: "state (nodes s' c) = USED" using u by (simp add: states_def)
  have mC: "a = memory (nodes s' c)" using struct_fields(4)[OF st' c] am by simp
  have mX: "memory (nodes s' c) = memory (nodes s X)"
    using struct_fields(4)[OF st' c] struct_fields(4)[OF st X(1)] mm by (simp add: X_def)
  have hX: "lists s sl = Some X" "X = hd (fl sl)" using hd by (simp_all add: X_def)
  have "n = 2 ^ l \<and> l \<le> sl \<and> sl < DEPTH \<and> 0 < sizes s sl \<and>
     (\<forall>j. l \<le> j \<and> j < sl \<longrightarrow> sizes s j \<le> 0) \<and>
     lists_ok s fl \<and> lists_ok s' fl' \<and>
     lists s sl = Some X \<and> fl sl \<noteq> [] \<and> X = hd (fl sl) \<and> lvl (nodes s X) = sl \<and>
     a_alloc l sl (states s, fl) = (c, (states s', fl')) \<and>
     fl' sl = tl (fl sl) \<and>
     prev (nodes s' X) = None \<and> next_node (nodes s' X) = None \<and>
     sizes s' sl = sizes s sl - 1 \<and>
     lvl (nodes s' c) = l \<and> state (nodes s' c) = USED \<and>
     a = memory (nodes s' c) \<and> memory (nodes s' c) = memory (nodes s X)"
    using n sl least lo lo' hX ne lX ab tl links cnt lC uC mC mX by (intro conjI) simp_all
  then show ?thesis
    by - (rule exI[of _ l], rule exI[of _ sl], rule exI[of _ X], rule exI[of _ c],
      rule exI[of _ fl], rule exI[of _ fl'])
qed

theorem alloc_success_algorithm_witness:
  "\<exists>s0 a1 s1 l sl X c. buddy_init 2147623936 zero_metadata = Some s0 \<and>
     buddy_alloc 1 s0 = Some (a1, s1) \<and> a1 \<noteq> 0 \<and>
     (1::int) = 2 ^ l \<and> l \<le> sl \<and> 0 < sizes s0 sl \<and> lists s0 sl = Some X \<and>
     prev (nodes s1 X) = None \<and> next_node (nodes s1 X) = None \<and>
     sizes s1 sl = sizes s0 sl - 1 \<and>
     lvl (nodes s1 c) = l \<and> state (nodes s1 c) = USED \<and>
     a1 = memory (nodes s1 c) \<and> memory (nodes s1 c) = memory (nodes s0 X)"
proof -
  from scenario[of 2147623936 zero_metadata 2281701376] obtain s0 a1 s1
    where s: "buddy_init 2147623936 zero_metadata = Some s0" "buddy_alloc 1 s0 = Some (a1, s1)" "a1 \<noteq> 0"
      and r: "reach 2147623936 2281701376 s0 []" by auto
  from alloc_success_algorithm[OF r s(2,3)] obtain l sl X c
    where "(1::int) = 2 ^ l \<and> l \<le> sl \<and> 0 < sizes s0 sl \<and> lists s0 sl = Some X \<and>
     prev (nodes s1 X) = None \<and> next_node (nodes s1 X) = None \<and>
     sizes s1 sl = sizes s0 sl - 1 \<and>
     lvl (nodes s1 c) = l \<and> state (nodes s1 c) = USED \<and>
     a1 = memory (nodes s1 c) \<and> memory (nodes s1 c) = memory (nodes s0 X)" by blast
  with s show ?thesis by blast
qed

text \<open>
  Claim C3. Let \<open>pa\<close> be the address of an outstanding allocation of a reachable state,
  below \<open>PHYSTOP\<close>. Exactly one node \<open>c\<close> is USED with \<open>memory\<close> equal to \<open>pa\<close>. The
  descent of \<open>buddy_free\<close> ends in it, and it is the descent of the specification (from the
  root, while the node is INNER, left if the right child starts strictly above \<open>pa\<close>, right
  otherwise). The call returns, and the state it leaves is the one \<open>a_free\<close> of the
  specification leaves: while the node is not the root and its neighbour is FREE, both become
  NONEXISTENT, the neighbour leaves the list of its level, and the walk goes on in the parent;
  the node it stops at becomes FREE and the head of the list of its level. The lists of the
  state are these lists, doubly linked, with the counts their lengths and null links in every
  node that is on no list (\<open>lists_ok\<close>).
\<close>

theorem free_algorithm:
  assumes r: "reach e phys s out" and o: "(pa, n) \<in> set out" and ph: "pa < phys"
  shows "\<exists>c s' fl fl'. c < NODES \<and> state (nodes s c) = USED \<and> memory (nodes s c) = pa \<and>
     (\<forall>c'<NODES. state (nodes s c') = USED \<and> memory (nodes s c') = pa \<longrightarrow> c' = c) \<and>
     descend pa 0 (acquire s) = Some c \<and> c = a_descend (PGROUNDUP e) (states s) pa 0 \<and>
     buddy_free e phys pa s = Some (Freed s') \<and>
     lists_ok s fl \<and> lists_ok s' fl' \<and> a_free c (states s, fl) = (states s', fl')"
proof -
  define b where "b = PGROUNDUP e"
  have st: "struct_ok b s" using reach_struct[OF r] by (simp add: b_def)
  from reach_lists[OF r] obtain fl where lo: "lists_ok s fl" and inv: "ainv (states s) fl" by blast
  have t: "tree_ok (states s)" using reach_tree[OF r] .
  from outstanding_address[OF r o] obtain c where cc: "c < NODES \<and> states s c = USED \<and>
     pa = mem_of (PGROUNDUP e) c \<and> n = 2 ^ lvl_of c \<and>
     pa mod PGSIZE = 0 \<and> e \<le> pa \<and> pa < PGROUNDUP e + PAGES * PGSIZE"
    by (erule exE)
  note c = cc[THEN conjunct1]
  note c2 = cc[THEN conjunct2]
  note u = c2[THEN conjunct1]
  note c3 = c2[THEN conjunct2]
  note m = c3[THEN conjunct1, folded b_def]
  note c5 = c3[THEN conjunct2, THEN conjunct2]
  note al = c5[THEN conjunct1]
  note ge = c5[THEN conjunct2, THEN conjunct1]
  have nz: "pa \<noteq> 0" using out_nonnull[OF r o] .
  from ph have valid: "\<not> (pa = 0 \<or> pa mod PGSIZE \<noteq> 0 \<or> pa < e \<or> pa \<ge> phys)"
    using nz al ge by simp
  have st1: "struct_ok b (acquire s)" using st by simp
  have t1: "tree_ok (states (acquire s))" using t by simp
  have "descend (mem_of b c) 0 (acquire s) = Some c"
    by (rule descend_finds[OF anc_root st1 t1 c]) (simp_all add: u)
  then have d: "descend pa 0 (acquire s) = Some c" by (simp only: m)
  have "descend pa 0 (acquire s) = Some (a_descend b (states (acquire s)) pa 0)"
    using descend_refines[OF st1 t1] .
  then have ad: "c = a_descend (PGROUNDUP e) (states s) pa 0" using d by (simp add: b_def)
  have uc: "state (nodes s c) = USED" using u by (simp add: states_def)
  have mc: "memory (nodes s c) = pa" using struct_fields(4)[OF st c] m by simp
  have uniq: "\<forall>c'<NODES. state (nodes s c') = USED \<and> memory (nodes s c') = pa \<longrightarrow> c' = c"
  proof (intro allI impI)
    fix c' assume c': "c' < NODES" and h: "state (nodes s c') = USED \<and> memory (nodes s c') = pa"
    have u': "states s c' = USED" using h by (simp add: states_def)
    have m': "mem_of b c' = mem_of b c" using struct_fields(4)[OF st c'] h m by simp
    show "c' = c"
    proof (rule ccontr)
      assume ne: "c' \<noteq> c"
      have "block b c' \<inter> block b c = {}" using used_disjoint[OF t c' u' c u ne] .
      moreover have "mem_of b c \<in> block b c" by (rule mem_in_block)
      moreover have "mem_of b c \<in> block b c'" using mem_in_block[of b c'] by (simp only: m')
      ultimately show False by blast
    qed
  qed
  from buddy_free_success[OF st lo inv valid d c u m[symmetric]]
  obtain s' fl' where f: "buddy_free e phys pa s = Some (Freed s')"
    and af: "a_free c (states s, fl) = (states s', fl')" and lo': "lists_ok s' fl'" by blast
  have "c < NODES \<and> state (nodes s c) = USED \<and> memory (nodes s c) = pa \<and>
     (\<forall>c'<NODES. state (nodes s c') = USED \<and> memory (nodes s c') = pa \<longrightarrow> c' = c) \<and>
     descend pa 0 (acquire s) = Some c \<and> c = a_descend (PGROUNDUP e) (states s) pa 0 \<and>
     buddy_free e phys pa s = Some (Freed s') \<and>
     lists_ok s fl \<and> lists_ok s' fl' \<and> a_free c (states s, fl) = (states s', fl')"
    using c uc mc uniq d ad f lo lo' af by (intro conjI)
  then show ?thesis
    by - (rule exI[of _ c], rule exI[of _ s'], rule exI[of _ fl], rule exI[of _ fl'])
qed

theorem free_algorithm_witness:
  "\<exists>s0 a1 s1 c s2. buddy_init 2147623936 zero_metadata = Some s0 \<and>
     buddy_alloc 1 s0 = Some (a1, s1) \<and> a1 \<noteq> 0 \<and>
     c < NODES \<and> state (nodes s1 c) = USED \<and> memory (nodes s1 c) = a1 \<and>
     descend a1 0 (acquire s1) = Some c \<and>
     buddy_free 2147623936 2281701376 a1 s1 = Some (Freed s2)"
proof -
  from scenario[of 2147623936 zero_metadata 2281701376] obtain s0 a1 s1
    where s: "buddy_init 2147623936 zero_metadata = Some s0" "buddy_alloc 1 s0 = Some (a1, s1)" "a1 \<noteq> 0"
      and r: "reach 2147623936 2281701376 s1 [(a1, 1)]" by auto
  have ph: "PGROUNDUP 2147623936 + PAGES * PGSIZE \<le> 2281701376"
    by (simp add: PGROUNDUP_def PGSIZE_def PAGES_def)
  have o: "(a1, 1) \<in> set [(a1, 1::int)]" by simp
  have lt: "a1 < 2281701376" using outstanding_below[OF r o ph] .
  from free_algorithm[OF r o lt] obtain c s2
    where "c < NODES \<and> state (nodes s1 c) = USED \<and> memory (nodes s1 c) = a1 \<and>
     descend a1 0 (acquire s1) = Some c \<and>
     buddy_free 2147623936 2281701376 a1 s1 = Some (Freed s2)" by blast
  with s show ?thesis by blast
qed





end
